theory Spec2Isabelle
  imports Main "HOL-Library.Word"
begin

section \<open>Data model: \<open>ring.h\<close>\<close>

text \<open>
  The C type \<open>int\<close> of the payload fields is a 32-bit word (read as two's complement
  by \<open>sint\<close>).  The values are only stored, compared with zero and handed to the
  store, never computed with.  A C \<open>float\<close> is carried as its 32-bit IEEE 754 pattern:
  \<open>db.c\<close> only passes floats to the store and back, and the store treats two kinds of
  pattern specially (see \<open>insert_into_state\<close>).
\<close>

type_synonym c_int = "32 word"
type_synonym c_float = "32 word"

datatype RingEntryType =
    BLOCK
  | LIGHT
  | KEY
  | COMMIT
  | EXIT
  | BLOCK_DAMAGE
  | BLOCK_DAMAGE_TRIM

record RingEntry =
  e_type :: RingEntryType
  e_p :: c_int
  e_q :: c_int
  e_x :: c_int
  e_y :: c_int
  e_z :: c_int
  e_w :: c_int
  e_key :: c_int

text \<open>
  \<open>struct Ring\<close>: \<open>capacity\<close>, \<open>start\<close>, \<open>end\<close> and the storage \<open>data\<close>.
  The header declares the three counters \<open>unsigned int\<close>; the functions that compute
  with them live in \<open>ring.c\<close>, which is not part of the sources at hand, and the
  specification describes the queue as logically unbounded.  The counters are therefore
  natural numbers here, and doubling never wraps.
\<close>

record Ring =
  ring_capacity :: nat
  ring_start :: nat
  ring_end :: nat
  ring_data :: "RingEntry list"

section \<open>The queue operations\<close>

definition blank_entry :: RingEntry where
  "blank_entry = \<lparr>e_type = BLOCK, e_p = 0, e_q = 0, e_x = 0, e_y = 0, e_z = 0, e_w = 0, e_key = 0\<rparr>"

text \<open>
  Modelled from the spec: \<open>ring_alloc\<close> (\<open>ring.c\<close> is missing).  The queue is allocated
  with the given capacity, \<open>start\<close> and \<open>end\<close> at 0, and \<open>capacity\<close> slots of storage.
\<close>

definition ring_alloc :: "nat \<Rightarrow> Ring" where
  "ring_alloc capacity =
     \<lparr>ring_capacity = capacity, ring_start = 0, ring_end = 0,
      ring_data = replicate capacity blank_entry\<rparr>"

text \<open>
  Modelled from the spec: \<open>ring_empty\<close>, \<open>ring_full\<close> and \<open>ring_size\<close> (\<open>ring.c\<close> is
  missing), the pure queries over \<open>start\<close>, \<open>end\<close> and \<open>capacity\<close>.  The size is
  \<open>(end - start) mod capacity\<close>, computed in the integers.  The indices are kept modulo
  the capacity, so the queue is empty when they coincide, and it is full when advancing
  \<open>end\<close> once more would make it look empty: one slot always stays free.
\<close>

definition ring_empty :: "Ring \<Rightarrow> bool" where
  "ring_empty r = (ring_start r = ring_end r)"

definition ring_full :: "Ring \<Rightarrow> bool" where
  "ring_full r = (ring_start r = (ring_end r + 1) mod ring_capacity r)"

definition ring_size :: "Ring \<Rightarrow> nat" where
  "ring_size r =
     nat ((int (ring_end r) - int (ring_start r)) mod int (ring_capacity r))"

text \<open>
  Modelled from the spec: \<open>ring_get\<close> (\<open>ring.c\<close> is missing), the queue's \<open>pop\<close>.  It
  returns and removes the oldest entry, or reports "empty" (C result 0, here \<open>None\<close>).
  The slot read is in range on a well-formed queue (\<open>ring_wf\<close> below), the only queues
  the results are stated for.
\<close>

definition ring_get :: "Ring \<Rightarrow> (RingEntry \<times> Ring) option" where
  "ring_get r =
     (if ring_empty r then None
      else Some (ring_data r ! ring_start r,
                 r\<lparr>ring_start := (ring_start r + 1) mod ring_capacity r\<rparr>))"

text \<open>The pending entries, oldest first: the slots from \<open>start\<close> up to \<open>end\<close>, modulo the capacity.\<close>

definition ring_pending :: "Ring \<Rightarrow> RingEntry list" where
  "ring_pending r =
     map (\<lambda>i. ring_data r ! ((ring_start r + i) mod ring_capacity r))
       [0 ..< ring_size r]"

text \<open>
  Modelled from the spec: \<open>ring_grow\<close> (\<open>ring.c\<close> is missing).  It doubles the capacity,
  reallocates the storage and copies all pending entries starting at index 0, which
  resets \<open>start\<close> to 0 and \<open>end\<close> to the size.
\<close>

definition ring_grow :: "Ring \<Rightarrow> Ring" where
  "ring_grow r =
     \<lparr>ring_capacity = 2 * ring_capacity r,
      ring_start = 0,
      ring_end = ring_size r,
      ring_data = ring_pending r
        @ replicate (2 * ring_capacity r - ring_size r) blank_entry\<rparr>"

text \<open>
  Modelled from the spec: \<open>ring_put\<close> (\<open>ring.c\<close> is missing), the queue's \<open>push\<close>.  If
  the buffer is full it grows first; then the entry is appended at \<open>end\<close>
  (\<open>ring_append\<close>), which advances modulo the capacity.
\<close>

definition ring_append :: "Ring \<Rightarrow> RingEntry \<Rightarrow> Ring" where
  "ring_append r entry =
     r\<lparr>ring_data := (ring_data r)[ring_end r := entry],
       ring_end := (ring_end r + 1) mod ring_capacity r\<rparr>"

definition ring_put :: "Ring \<Rightarrow> RingEntry \<Rightarrow> Ring" where
  "ring_put r entry = ring_append (if ring_full r then ring_grow r else r) entry"

text \<open>
  Modelled from the spec: the typed pushes \<open>ring_put_block\<close>, \<open>ring_put_light\<close>,
  \<open>ring_put_key\<close>, \<open>ring_put_commit\<close>, \<open>ring_put_exit\<close>, \<open>ring_put_block_damage\<close> and
  \<open>ring_put_block_damage_trim\<close> (\<open>ring.c\<close> is missing).  Each pushes the Command tagged
  with its kind and carrying the payload fields of that kind; the fields a kind does
  not use are left at 0 (the worker never reads them).
\<close>

definition block_entry :: "c_int \<Rightarrow> c_int \<Rightarrow> c_int \<Rightarrow> c_int \<Rightarrow> c_int \<Rightarrow> c_int \<Rightarrow> RingEntry" where
  "block_entry p q x y z w =
     \<lparr>e_type = BLOCK, e_p = p, e_q = q, e_x = x, e_y = y, e_z = z, e_w = w, e_key = 0\<rparr>"

definition light_entry :: "c_int \<Rightarrow> c_int \<Rightarrow> c_int \<Rightarrow> c_int \<Rightarrow> c_int \<Rightarrow> c_int \<Rightarrow> RingEntry" where
  "light_entry p q x y z w =
     \<lparr>e_type = LIGHT, e_p = p, e_q = q, e_x = x, e_y = y, e_z = z, e_w = w, e_key = 0\<rparr>"

definition key_entry :: "c_int \<Rightarrow> c_int \<Rightarrow> c_int \<Rightarrow> RingEntry" where
  "key_entry p q key =
     \<lparr>e_type = KEY, e_p = p, e_q = q, e_x = 0, e_y = 0, e_z = 0, e_w = 0, e_key = key\<rparr>"

definition commit_entry :: RingEntry where
  "commit_entry =
     \<lparr>e_type = COMMIT, e_p = 0, e_q = 0, e_x = 0, e_y = 0, e_z = 0, e_w = 0, e_key = 0\<rparr>"

definition exit_entry :: RingEntry where
  "exit_entry =
     \<lparr>e_type = EXIT, e_p = 0, e_q = 0, e_x = 0, e_y = 0, e_z = 0, e_w = 0, e_key = 0\<rparr>"

definition block_damage_entry :: "c_int \<Rightarrow> c_int \<Rightarrow> c_int \<Rightarrow> c_int \<Rightarrow> c_int \<Rightarrow> c_int \<Rightarrow> RingEntry" where
  "block_damage_entry p q x y z damage =
     \<lparr>e_type = BLOCK_DAMAGE, e_p = p, e_q = q, e_x = x, e_y = y, e_z = z, e_w = damage,
      e_key = 0\<rparr>"

definition block_damage_trim_entry :: "c_int \<Rightarrow> c_int \<Rightarrow> RingEntry" where
  "block_damage_trim_entry p q =
     \<lparr>e_type = BLOCK_DAMAGE_TRIM, e_p = p, e_q = q, e_x = 0, e_y = 0, e_z = 0, e_w = 0,
      e_key = 0\<rparr>"

definition ring_put_block :: "Ring \<Rightarrow> c_int \<Rightarrow> c_int \<Rightarrow> c_int \<Rightarrow> c_int \<Rightarrow> c_int \<Rightarrow> c_int \<Rightarrow> Ring" where
  "ring_put_block r p q x y z w = ring_put r (block_entry p q x y z w)"

definition ring_put_light :: "Ring \<Rightarrow> c_int \<Rightarrow> c_int \<Rightarrow> c_int \<Rightarrow> c_int \<Rightarrow> c_int \<Rightarrow> c_int \<Rightarrow> Ring" where
  "ring_put_light r p q x y z w = ring_put r (light_entry p q x y z w)"

definition ring_put_key :: "Ring \<Rightarrow> c_int \<Rightarrow> c_int \<Rightarrow> c_int \<Rightarrow> Ring" where
  "ring_put_key r p q key = ring_put r (key_entry p q key)"

definition ring_put_commit :: "Ring \<Rightarrow> Ring" where
  "ring_put_commit r = ring_put r commit_entry"

definition ring_put_exit :: "Ring \<Rightarrow> Ring" where
  "ring_put_exit r = ring_put r exit_entry"

definition ring_put_block_damage :: "Ring \<Rightarrow> c_int \<Rightarrow> c_int \<Rightarrow> c_int \<Rightarrow> c_int \<Rightarrow> c_int \<Rightarrow> c_int \<Rightarrow> Ring" where
  "ring_put_block_damage r p q x y z damage = ring_put r (block_damage_entry p q x y z damage)"

definition ring_put_block_damage_trim :: "Ring \<Rightarrow> c_int \<Rightarrow> c_int \<Rightarrow> Ring" where
  "ring_put_block_damage_trim r p q = ring_put r (block_damage_trim_entry p q)"

text \<open>Modelled from the spec: \<open>ring_free\<close> (\<open>ring.c\<close> is missing) releases the storage.\<close>

definition ring_free :: "Ring \<Rightarrow> Ring" where
  "ring_free r = r\<lparr>ring_data := []\<rparr>"

text \<open>
  A full drain: pop until the queue reports empty.  The loop need not end on a
  queue whose indices are out of range, so not returning is the value \<open>None\<close>.
\<close>

partial_function (option) ring_drain :: "Ring \<Rightarrow> RingEntry list option" where
  "ring_drain r =
     (case ring_get r of
        None \<Rightarrow> Some []
      | Some (e, r') \<Rightarrow> Option.bind (ring_drain r') (\<lambda>es. Some (e # es)))"

text \<open>Well-formed queues: a positive capacity, indices below it, storage of that size.\<close>

definition ring_wf :: "Ring \<Rightarrow> bool" where
  "ring_wf r =
     (0 < ring_capacity r \<and> ring_start r < ring_capacity r
      \<and> ring_end r < ring_capacity r
      \<and> length (ring_data r) = ring_capacity r)"

section \<open>The backing store\<close>

text \<open>
  The store is external (SQLite).  It is modelled by the rows of the tables that
  \<open>create_query\<close> in \<open>db_init\<close> declares, in the order the store returns them, and each
  SQL statement of \<open>db_init\<close> by what its text says on those rows.  The columns are
  \<open>(p, q, x, y, z, w)\<close> for \<open>block\<close>, \<open>light\<close> and \<open>block_damage\<close>, \<open>(p, q, key)\<close> for
  \<open>key\<close>, \<open>(p, q, x, y, z, face, text)\<close> for \<open>sign\<close>, \<open>(x, y, z, rx, ry, flying)\<close> for
  \<open>state\<close> and \<open>(username, token, selected)\<close> for \<open>auth.identity_token\<close>.
  A write statement completes, as the worker assumes, unless a \<open>not null\<close> constraint of
  the schema rejects its row; transactions are not modelled.
\<close>

type_synonym block_row = "c_int \<times> c_int \<times> c_int \<times> c_int \<times> c_int \<times> c_int"
type_synonym xyzw_row = "c_int \<times> c_int \<times> c_int \<times> c_int"
type_synonym key_row = "c_int \<times> c_int \<times> c_int"
type_synonym sign_row = "c_int \<times> c_int \<times> c_int \<times> c_int \<times> c_int \<times> c_int \<times> string"
type_synonym state_row = "c_float \<times> c_float \<times> c_float \<times> c_float \<times> c_float \<times> c_int"
type_synonym identity_token_row = "string \<times> string \<times> c_int"

record Store =
  t_state :: "state_row list"
  t_block :: "block_row list"
  t_light :: "block_row list"
  t_key :: "key_row list"
  t_sign :: "sign_row list"
  t_block_damage :: "block_row list"
  t_identity_token :: "identity_token_row list"

text \<open>
  \<open>insert or replace into block (p, q, x, y, z, w) values (?, ?, ?, ?, ?, ?);\<close> and the
  same statement on \<open>light\<close> and \<open>block_damage\<close>.  Each table has a unique index on
  \<open>(p, q, x, y, z)\<close>, so the rows in conflict are replaced.
\<close>

fun insert_or_replace_pqxyz :: "block_row \<Rightarrow> block_row list \<Rightarrow> block_row list" where
  "insert_or_replace_pqxyz (p, q, x, y, z, w) tbl =
     filter (\<lambda>(p', q', x', y', z', w'). \<not> (p' = p \<and> q' = q \<and> x' = x \<and> y' = y \<and> z' = z)) tbl
       @ [(p, q, x, y, z, w)]"

text \<open>\<open>select x, y, z, w from block where p = ? and q = ?;\<close> (also on \<open>light\<close>, \<open>block_damage\<close>).\<close>

definition select_xyzw :: "c_int \<Rightarrow> c_int \<Rightarrow> block_row list \<Rightarrow> xyzw_row list" where
  "select_xyzw p q tbl =
     map (\<lambda>(p', q', x, y, z, w). (x, y, z, w))
       (filter (\<lambda>(p', q', x, y, z, w). p' = p \<and> q' = q) tbl)"

text \<open>\<open>delete from block_damage where w=0 and p=? and q=?;\<close>\<close>

definition delete_zero_damage :: "c_int \<Rightarrow> c_int \<Rightarrow> block_row list \<Rightarrow> block_row list" where
  "delete_zero_damage p q tbl =
     filter (\<lambda>(p', q', x, y, z, w). \<not> (w = 0 \<and> p' = p \<and> q' = q)) tbl"

text \<open>\<open>insert or replace into key (p, q, key) values (?, ?, ?);\<close> with the unique index on \<open>(p, q)\<close>.\<close>

fun insert_or_replace_key :: "key_row \<Rightarrow> key_row list \<Rightarrow> key_row list" where
  "insert_or_replace_key (p, q, key) tbl =
     filter (\<lambda>(p', q', key'). \<not> (p' = p \<and> q' = q)) tbl @ [(p, q, key)]"

text \<open>\<open>select key from key where p = ? and q = ?;\<close>\<close>

definition select_key :: "c_int \<Rightarrow> c_int \<Rightarrow> key_row list \<Rightarrow> c_int list" where
  "select_key p q tbl =
     map (\<lambda>(p', q', key). key) (filter (\<lambda>(p', q', key). p' = p \<and> q' = q) tbl)"

text \<open>
  \<open>insert or replace into sign (p, q, x, y, z, face, text) values (?, ?, ?, ?, ?, ?, ?);\<close>
  with the unique index on \<open>(x, y, z, face)\<close>, the two deletes and the select of a chunk.
\<close>

fun insert_or_replace_sign :: "sign_row \<Rightarrow> sign_row list \<Rightarrow> sign_row list" where
  "insert_or_replace_sign (p, q, x, y, z, face, text) tbl =
     filter (\<lambda>(p', q', x', y', z', face', text').
        \<not> (x' = x \<and> y' = y \<and> z' = z \<and> face' = face)) tbl
       @ [(p, q, x, y, z, face, text)]"

definition delete_sign :: "c_int \<Rightarrow> c_int \<Rightarrow> c_int \<Rightarrow> c_int \<Rightarrow> sign_row list \<Rightarrow> sign_row list" where
  "delete_sign x y z face tbl =
     filter (\<lambda>(p', q', x', y', z', face', text').
        \<not> (x' = x \<and> y' = y \<and> z' = z \<and> face' = face)) tbl"

definition delete_signs :: "c_int \<Rightarrow> c_int \<Rightarrow> c_int \<Rightarrow> sign_row list \<Rightarrow> sign_row list" where
  "delete_signs x y z tbl =
     filter (\<lambda>(p', q', x', y', z', face', text'). \<not> (x' = x \<and> y' = y \<and> z' = z)) tbl"

definition select_signs ::
  "c_int \<Rightarrow> c_int \<Rightarrow> sign_row list \<Rightarrow> (c_int \<times> c_int \<times> c_int \<times> c_int \<times> string) list" where
  "select_signs p q tbl =
     map (\<lambda>(p', q', x, y, z, face, text). (x, y, z, face, text))
       (filter (\<lambda>(p', q', x, y, z, face, text). p' = p \<and> q' = q) tbl)"

text \<open>
  The statements on \<open>auth.identity_token\<close>, with the unique index on \<open>username\<close>:
  insert or replace, \<open>set selected = 0\<close> on all rows, \<open>set selected = 1 where username = ?\<close>,
  and the two selects.
\<close>

fun insert_or_replace_identity_token ::
  "identity_token_row \<Rightarrow> identity_token_row list \<Rightarrow> identity_token_row list" where
  "insert_or_replace_identity_token (username, token, selected) tbl =
     filter (\<lambda>(username', token', selected'). username' \<noteq> username) tbl
       @ [(username, token, selected)]"

definition update_selected_none :: "identity_token_row list \<Rightarrow> identity_token_row list" where
  "update_selected_none tbl = map (\<lambda>(username', token', selected'). (username', token', 0)) tbl"

definition update_selected :: "string \<Rightarrow> identity_token_row list \<Rightarrow> identity_token_row list" where
  "update_selected username tbl =
     map (\<lambda>(username', token', selected').
        if username' = username then (username', token', 1) else (username', token', selected')) tbl"

definition select_token :: "string \<Rightarrow> identity_token_row list \<Rightarrow> string list" where
  "select_token username tbl =
     map (\<lambda>(username', token', selected'). token')
       (filter (\<lambda>(username', token', selected'). username' = username) tbl)"

definition select_selected :: "identity_token_row list \<Rightarrow> (string \<times> string) list" where
  "select_selected tbl =
     map (\<lambda>(username', token', selected'). (username', token'))
       (filter (\<lambda>(username', token', selected'). selected' = 1) tbl)"

section \<open>The process state of \<open>db.c\<close>\<close>

text \<open>
  The two mutexes \<open>mtx\<close> and \<open>load_mtx\<close>, and the prepared statements (\<open>local_stmt\<close>
  stands for the statement a function prepares and finalizes itself).
\<close>

datatype mutex = Mtx | Load_mtx

datatype stmt =
    insert_block_stmt
  | insert_light_stmt
  | insert_sign_stmt
  | delete_sign_stmt
  | delete_signs_stmt
  | load_blocks_stmt
  | load_lights_stmt
  | load_signs_stmt
  | get_key_stmt
  | set_key_stmt
  | load_block_damage_stmt
  | insert_block_damage_stmt
  | trim_block_damage_stmt
  | local_stmt

text \<open>
  Every call into the thread library, the queue and the store is logged, in program
  order, so that claims about which calls happen, and under which lock, can be stated.
\<close>

datatype event =
    MtxInit mutex
  | MtxLock mutex
  | MtxUnlock mutex
  | MtxDestroy mutex
  | CndInit
  | CndSignal
  | CndDestroy
  | ThrdCreate
  | ThrdJoin
  | RingAlloc
  | RingPut RingEntry
  | RingGet RingEntry
  | RingFree
  | SqlitePrepare string
  | SqliteReset stmt
  | SqliteBindInt stmt nat c_int
  | SqliteBindDouble stmt nat c_float
  | SqliteBindText stmt nat string
  | SqliteStep stmt
  | SqliteColumn stmt nat
  | SqliteFinalize stmt
  | SqliteExec string
  | SqliteChanges
  | SqliteClose

text \<open>
  The worker thread: not yet created, blocked or about to pop (\<open>WAITING\<close>), holding a
  popped entry that it is about to dispatch (\<open>DRAINING\<close>), or returned (\<open>STOPPED\<close>).
\<close>

datatype worker_state = NOT_STARTED | WAITING | DRAINING RingEntry | STOPPED

text \<open>The file-scope variables \<open>db_enabled\<close>, \<open>db\<close>, \<open>ring\<close> and \<open>thrd\<close>, and the log.\<close>

record world =
  db_enabled :: bool
  db :: Store
  ring :: Ring
  thrd :: worker_state
  trace :: "event list"

definition emit :: "event list \<Rightarrow> world \<Rightarrow> world" where
  "emit es s = s\<lparr>trace := trace s @ es\<rparr>"

definition db_enable :: "world \<Rightarrow> world" where
  "db_enable s = s\<lparr>db_enabled := True\<rparr>"

definition db_disable :: "world \<Rightarrow> world" where
  "db_disable s = s\<lparr>db_enabled := False\<rparr>"

definition get_db_enabled :: "world \<Rightarrow> bool" where
  "get_db_enabled s = db_enabled s"

section \<open>The producer entry points of \<open>db.c\<close>\<close>

text \<open>
  Each enqueue call returns at once when the database is disabled; otherwise it locks
  \<open>mtx\<close>, pushes its Command, signals \<open>cnd\<close> and unlocks.  The mutex makes the four
  calls one atomic step of the process state.
\<close>

definition db_commit :: "world \<Rightarrow> world" where
  "db_commit s =
     (if \<not> db_enabled s then s
      else emit [MtxLock Mtx, RingPut commit_entry, CndSignal, MtxUnlock Mtx]
             (s\<lparr>ring := ring_put_commit (ring s)\<rparr>))"

definition db_insert_block :: "c_int \<Rightarrow> c_int \<Rightarrow> c_int \<Rightarrow> c_int \<Rightarrow> c_int \<Rightarrow> c_int \<Rightarrow> world \<Rightarrow> world" where
  "db_insert_block p q x y z w s =
     (if \<not> db_enabled s then s
      else emit [MtxLock Mtx, RingPut (block_entry p q x y z w), CndSignal, MtxUnlock Mtx]
             (s\<lparr>ring := ring_put_block (ring s) p q x y z w\<rparr>))"

definition db_insert_block_damage :: "c_int \<Rightarrow> c_int \<Rightarrow> c_int \<Rightarrow> c_int \<Rightarrow> c_int \<Rightarrow> c_int \<Rightarrow> world \<Rightarrow> world" where
  "db_insert_block_damage p q x y z damage s =
     (if \<not> db_enabled s then s
      else emit [MtxLock Mtx, RingPut (block_damage_entry p q x y z damage), CndSignal,
                 MtxUnlock Mtx]
             (s\<lparr>ring := ring_put_block_damage (ring s) p q x y z damage\<rparr>))"

definition db_trim_block_damage :: "c_int \<Rightarrow> c_int \<Rightarrow> world \<Rightarrow> world" where
  "db_trim_block_damage p q s =
     (if \<not> db_enabled s then s
      else emit [MtxLock Mtx, RingPut (block_damage_trim_entry p q), CndSignal, MtxUnlock Mtx]
             (s\<lparr>ring := ring_put_block_damage_trim (ring s) p q\<rparr>))"

definition db_insert_light :: "c_int \<Rightarrow> c_int \<Rightarrow> c_int \<Rightarrow> c_int \<Rightarrow> c_int \<Rightarrow> c_int \<Rightarrow> world \<Rightarrow> world" where
  "db_insert_light p q x y z w s =
     (if \<not> db_enabled s then s
      else emit [MtxLock Mtx, RingPut (light_entry p q x y z w), CndSignal, MtxUnlock Mtx]
             (s\<lparr>ring := ring_put_light (ring s) p q x y z w\<rparr>))"

definition db_set_key :: "c_int \<Rightarrow> c_int \<Rightarrow> c_int \<Rightarrow> world \<Rightarrow> world" where
  "db_set_key p q key s =
     (if \<not> db_enabled s then s
      else emit [MtxLock Mtx, RingPut (key_entry p q key), CndSignal, MtxUnlock Mtx]
             (s\<lparr>ring := ring_put_key (ring s) p q key\<rparr>))"

section \<open>The store writes of the worker\<close>

text \<open>
  The static functions \<open>_db_commit\<close>, \<open>_db_insert_block\<close>, \<open>_db_insert_block_damage\<close>,
  \<open>_db_block_damage_trim\<close>, \<open>_db_insert_light\<close> and \<open>_db_set_key\<close>; a name cannot start
  with an underscore here, so they end in a prime instead.
\<close>

definition db_commit' :: "world \<Rightarrow> world" where
  "db_commit' s = emit [SqliteExec ''commit; begin;''] s"

definition db_insert_block' :: "c_int \<Rightarrow> c_int \<Rightarrow> c_int \<Rightarrow> c_int \<Rightarrow> c_int \<Rightarrow> c_int \<Rightarrow> world \<Rightarrow> world" where
  "db_insert_block' p q x y z w s =
     emit [SqliteReset insert_block_stmt,
           SqliteBindInt insert_block_stmt 1 p,
           SqliteBindInt insert_block_stmt 2 q,
           SqliteBindInt insert_block_stmt 3 x,
           SqliteBindInt insert_block_stmt 4 y,
           SqliteBindInt insert_block_stmt 5 z,
           SqliteBindInt insert_block_stmt 6 w,
           SqliteStep insert_block_stmt]
       (s\<lparr>db := (db s)\<lparr>t_block := insert_or_replace_pqxyz (p, q, x, y, z, w) (t_block (db s))\<rparr>\<rparr>)"

definition db_insert_block_damage' :: "c_int \<Rightarrow> c_int \<Rightarrow> c_int \<Rightarrow> c_int \<Rightarrow> c_int \<Rightarrow> c_int \<Rightarrow> world \<Rightarrow> world" where
  "db_insert_block_damage' p q x y z w s =
     emit [SqliteReset insert_block_damage_stmt,
           SqliteBindInt insert_block_damage_stmt 1 p,
           SqliteBindInt insert_block_damage_stmt 2 q,
           SqliteBindInt insert_block_damage_stmt 3 x,
           SqliteBindInt insert_block_damage_stmt 4 y,
           SqliteBindInt insert_block_damage_stmt 5 z,
           SqliteBindInt insert_block_damage_stmt 6 w,
           SqliteStep insert_block_damage_stmt]
       (s\<lparr>db := (db s)\<lparr>t_block_damage :=
              insert_or_replace_pqxyz (p, q, x, y, z, w) (t_block_damage (db s))\<rparr>\<rparr>)"

definition db_block_damage_trim' :: "c_int \<Rightarrow> c_int \<Rightarrow> world \<Rightarrow> world" where
  "db_block_damage_trim' p q s =
     emit [SqliteReset trim_block_damage_stmt,
           SqliteBindInt trim_block_damage_stmt 1 p,
           SqliteBindInt trim_block_damage_stmt 2 q,
           SqliteStep trim_block_damage_stmt]
       (s\<lparr>db := (db s)\<lparr>t_block_damage := delete_zero_damage p q (t_block_damage (db s))\<rparr>\<rparr>)"

definition db_insert_light' :: "c_int \<Rightarrow> c_int \<Rightarrow> c_int \<Rightarrow> c_int \<Rightarrow> c_int \<Rightarrow> c_int \<Rightarrow> world \<Rightarrow> world" where
  "db_insert_light' p q x y z w s =
     emit [SqliteReset insert_light_stmt,
           SqliteBindInt insert_light_stmt 1 p,
           SqliteBindInt insert_light_stmt 2 q,
           SqliteBindInt insert_light_stmt 3 x,
           SqliteBindInt insert_light_stmt 4 y,
           SqliteBindInt insert_light_stmt 5 z,
           SqliteBindInt insert_light_stmt 6 w,
           SqliteStep insert_light_stmt]
       (s\<lparr>db := (db s)\<lparr>t_light := insert_or_replace_pqxyz (p, q, x, y, z, w) (t_light (db s))\<rparr>\<rparr>)"

definition db_set_key' :: "c_int \<Rightarrow> c_int \<Rightarrow> c_int \<Rightarrow> world \<Rightarrow> world" where
  "db_set_key' p q key s =
     emit [SqliteReset set_key_stmt,
           SqliteBindInt set_key_stmt 1 p,
           SqliteBindInt set_key_stmt 2 q,
           SqliteBindInt set_key_stmt 3 key,
           SqliteStep set_key_stmt]
       (s\<lparr>db := (db s)\<lparr>t_key := insert_or_replace_key (p, q, key) (t_key (db s))\<rparr>\<rparr>)"

section \<open>The worker\<close>

text \<open>The \<open>switch (e.type)\<close> of \<open>db_worker_run\<close>, without the \<open>running\<close> flag.\<close>

definition dispatch :: "RingEntry \<Rightarrow> world \<Rightarrow> world" where
  "dispatch e s =
     (case e_type e of
        BLOCK \<Rightarrow>
          db_insert_block_damage' (e_p e) (e_q e) (e_x e) (e_y e) (e_z e) 0
            (db_insert_block' (e_p e) (e_q e) (e_x e) (e_y e) (e_z e) (e_w e) s)
      | LIGHT \<Rightarrow> db_insert_light' (e_p e) (e_q e) (e_x e) (e_y e) (e_z e) (e_w e) s
      | KEY \<Rightarrow> db_set_key' (e_p e) (e_q e) (e_key e) s
      | COMMIT \<Rightarrow> db_commit' s
      | EXIT \<Rightarrow> s
      | BLOCK_DAMAGE \<Rightarrow>
          db_insert_block_damage' (e_p e) (e_q e) (e_x e) (e_y e) (e_z e) (e_w e) s
      | BLOCK_DAMAGE_TRIM \<Rightarrow> db_block_damage_trim' (e_p e) (e_q e) s)"

text \<open>
  One transition of the thread that runs \<open>db_worker_run\<close>.  In \<open>WAITING\<close> it holds \<open>mtx\<close>
  and calls \<open>ring_get\<close>: on an empty queue it stays blocked in \<open>cnd_wait\<close> (no progress),
  otherwise it keeps the popped entry and unlocks.  In \<open>DRAINING\<close> it runs the switch on
  the entry it holds, outside the lock; \<open>EXIT\<close> clears \<open>running\<close>, which ends the loop.
\<close>

definition db_worker_run_step :: "world \<Rightarrow> world" where
  "db_worker_run_step s =
     (case thrd s of
        NOT_STARTED \<Rightarrow> s
      | WAITING \<Rightarrow>
          (case ring_get (ring s) of
             None \<Rightarrow> s
           | Some (e, r') \<Rightarrow>
               emit [MtxLock Mtx, RingGet e, MtxUnlock Mtx] (s\<lparr>ring := r', thrd := DRAINING e\<rparr>))
      | DRAINING e \<Rightarrow>
          (dispatch e s)\<lparr>thrd := (if e_type e = EXIT then STOPPED else WAITING)\<rparr>
      | STOPPED \<Rightarrow> s)"

text \<open>
  \<open>db_worker_run\<close> itself, from the thread's current point until it returns 0, with no
  other thread running.  A worker blocked for ever on an empty queue never returns:
  that is the value \<open>None\<close>.
\<close>

partial_function (option) db_worker_run :: "world \<Rightarrow> world option" where
  "db_worker_run s =
     (if thrd s = STOPPED then Some s else db_worker_run (db_worker_run_step s))"

definition db_worker_start :: "string option \<Rightarrow> world \<Rightarrow> world" where
  "db_worker_start path s =
     (if \<not> db_enabled s then s
      else emit [RingAlloc, MtxInit Mtx, MtxInit Load_mtx, CndInit, ThrdCreate]
             (s\<lparr>ring := ring_alloc 1024, thrd := WAITING\<rparr>))"

text \<open>
  \<open>db_worker_stop\<close>: the critical section that pushes \<open>EXIT\<close>, then \<open>thrd_join\<close>, which
  returns once the worker has returned, then the clean-up.
\<close>

definition db_worker_stop_enqueue :: "world \<Rightarrow> world" where
  "db_worker_stop_enqueue s =
     emit [MtxLock Mtx, RingPut exit_entry, CndSignal, MtxUnlock Mtx]
       (s\<lparr>ring := ring_put_exit (ring s)\<rparr>)"

definition db_worker_stop :: "world \<Rightarrow> world option" where
  "db_worker_stop s =
     (if \<not> db_enabled s then Some s
      else case db_worker_run (db_worker_stop_enqueue s) of
             None \<Rightarrow> None
           | Some s' \<Rightarrow>
               Some (emit [ThrdJoin, CndDestroy, MtxDestroy Load_mtx, MtxDestroy Mtx, RingFree]
                       (s'\<lparr>ring := ring_free (ring s')\<rparr>)))"

section \<open>Producers and the worker, interleaved\<close>

text \<open>
  Any number of producer threads call the enqueue entry points while the worker runs.
  Since the queue is only touched under \<open>mtx\<close>, an execution is a sequence of atomic
  steps: a producer's critical section, or one transition of the worker.  A producer
  that calls \<open>db_worker_stop\<close> contributes its critical section.
\<close>

datatype call =
    Insert_block c_int c_int c_int c_int c_int c_int
  | Insert_light c_int c_int c_int c_int c_int c_int
  | Insert_block_damage c_int c_int c_int c_int c_int c_int
  | Trim_block_damage c_int c_int
  | Set_key c_int c_int c_int
  | Commit
  | Worker_stop

fun producer :: "call \<Rightarrow> world \<Rightarrow> world" where
  "producer (Insert_block p q x y z w) s = db_insert_block p q x y z w s"
| "producer (Insert_light p q x y z w) s = db_insert_light p q x y z w s"
| "producer (Insert_block_damage p q x y z damage) s = db_insert_block_damage p q x y z damage s"
| "producer (Trim_block_damage p q) s = db_trim_block_damage p q s"
| "producer (Set_key p q key) s = db_set_key p q key s"
| "producer Commit s = db_commit s"
| "producer Worker_stop s = (if \<not> db_enabled s then s else db_worker_stop_enqueue s)"

text \<open>The Command a call pushes.\<close>

fun call_entry :: "call \<Rightarrow> RingEntry" where
  "call_entry (Insert_block p q x y z w) = block_entry p q x y z w"
| "call_entry (Insert_light p q x y z w) = light_entry p q x y z w"
| "call_entry (Insert_block_damage p q x y z damage) = block_damage_entry p q x y z damage"
| "call_entry (Trim_block_damage p q) = block_damage_trim_entry p q"
| "call_entry (Set_key p q key) = key_entry p q key"
| "call_entry Commit = commit_entry"
| "call_entry Worker_stop = exit_entry"

datatype action = Producer call | Worker

fun step :: "action \<Rightarrow> world \<Rightarrow> world" where
  "step (Producer c) s = producer c s"
| "step Worker s = db_worker_run_step s"

fun run :: "action list \<Rightarrow> world \<Rightarrow> world" where
  "run [] s = s"
| "run (a # as) s = run as (step a s)"

text \<open>The calls of the producers in a schedule, in the order their critical sections ran.\<close>

fun calls :: "action list \<Rightarrow> call list" where
  "calls [] = []"
| "calls (Producer c # as) = c # calls as"
| "calls (Worker # as) = calls as"

text \<open>The entries pushed and popped according to the log, in order.\<close>

fun ring_puts :: "event list \<Rightarrow> RingEntry list" where
  "ring_puts [] = []"
| "ring_puts (RingPut e # es) = e # ring_puts es"
| "ring_puts (ev # es) = ring_puts es"

fun ring_gets :: "event list \<Rightarrow> RingEntry list" where
  "ring_gets [] = []"
| "ring_gets (RingGet e # es) = e # ring_gets es"
| "ring_gets (ev # es) = ring_gets es"

text \<open>
  The Commands the worker has dispatched so far, among those it popped: all of them,
  but for the one it still holds.
\<close>

definition applied :: "world \<Rightarrow> RingEntry list \<Rightarrow> RingEntry list" where
  "applied s popped = (case thrd s of DRAINING e \<Rightarrow> butlast popped | _ \<Rightarrow> popped)"

section \<open>The immediate operations of \<open>db.c\<close>\<close>

definition db_close :: "world \<Rightarrow> world option" where
  "db_close s =
     (if \<not> db_enabled s then Some s
      else case db_worker_stop s of
             None \<Rightarrow> None
           | Some s' \<Rightarrow>
               Some (emit [SqliteExec ''commit;'',
                           SqliteFinalize insert_block_stmt,
                           SqliteFinalize insert_light_stmt,
                           SqliteFinalize insert_sign_stmt,
                           SqliteFinalize delete_sign_stmt,
                           SqliteFinalize delete_signs_stmt,
                           SqliteFinalize load_blocks_stmt,
                           SqliteFinalize load_lights_stmt,
                           SqliteFinalize load_signs_stmt,
                           SqliteFinalize get_key_stmt,
                           SqliteFinalize set_key_stmt,
                           SqliteFinalize insert_block_damage_stmt,
                           SqliteFinalize load_block_damage_stmt,
                           SqliteFinalize trim_block_damage_stmt,
                           SqliteClose] s'))"

definition db_auth_select_none :: "world \<Rightarrow> world" where
  "db_auth_select_none s =
     (if \<not> db_enabled s then s
      else emit [SqliteExec ''update auth.identity_token set selected = 0;'']
             (s\<lparr>db := (db s)\<lparr>t_identity_token := update_selected_none (t_identity_token (db s))\<rparr>\<rparr>))"

text \<open>The result is \<open>sqlite3_changes\<close>: the number of rows the last update changed.\<close>

definition db_auth_select :: "string \<Rightarrow> world \<Rightarrow> c_int \<times> world" where
  "db_auth_select username s =
     (if \<not> db_enabled s then (0, s)
      else let s1 = db_auth_select_none s;
               changes = length (select_token username (t_identity_token (db s1)))
           in (of_nat changes,
               emit [SqlitePrepare ''update auth.identity_token set selected = 1 where username = ?;'',
                     SqliteBindText local_stmt 1 username,
                     SqliteStep local_stmt,
                     SqliteFinalize local_stmt,
                     SqliteChanges]
                 (s1\<lparr>db := (db s1)\<lparr>t_identity_token :=
                        update_selected username (t_identity_token (db s1))\<rparr>\<rparr>)))"

definition db_auth_set :: "string \<Rightarrow> string \<Rightarrow> world \<Rightarrow> world" where
  "db_auth_set username identity_token s =
     (if \<not> db_enabled s then s
      else snd (db_auth_select username
             (emit [SqlitePrepare
                      (''insert or replace into auth.identity_token ''
                         @ ''(username, token, selected) values (?, ?, ?);''),
                    SqliteBindText local_stmt 1 username,
                    SqliteBindText local_stmt 2 identity_token,
                    SqliteBindInt local_stmt 3 1,
                    SqliteStep local_stmt,
                    SqliteFinalize local_stmt]
                (s\<lparr>db := (db s)\<lparr>t_identity_token :=
                       insert_or_replace_identity_token (username, identity_token, 1)
                         (t_identity_token (db s))\<rparr>\<rparr>))))"

text \<open>
  \<open>strncpy (dst, a, n - 1)\<close> followed by \<open>dst[n - 1] = 0\<close> leaves the first \<open>n - 1\<close>
  characters of \<open>a\<close> in a buffer of \<open>n\<close> bytes.  The buffers are results here: \<open>None\<close>
  when the function does not write them.
\<close>

definition db_auth_get :: "string \<Rightarrow> nat \<Rightarrow> world \<Rightarrow> c_int \<times> string option \<times> world" where
  "db_auth_get username identity_token_length s =
     (if \<not> db_enabled s then (0, None, s)
      else let s1 = emit [SqlitePrepare
                            (''select token from auth.identity_token '' @ ''where username = ?;''),
                          SqliteBindText local_stmt 1 username,
                          SqliteStep local_stmt] s
           in case select_token username (t_identity_token (db s)) of
                [] \<Rightarrow> (0, None, emit [SqliteFinalize local_stmt] s1)
              | a # rest \<Rightarrow>
                  (1, Some (take (identity_token_length - 1) a),
                   emit [SqliteColumn local_stmt 0, SqliteFinalize local_stmt] s1))"

definition db_auth_get_selected ::
  "nat \<Rightarrow> nat \<Rightarrow> world \<Rightarrow> c_int \<times> (string \<times> string) option \<times> world" where
  "db_auth_get_selected username_length identity_token_length s =
     (if \<not> db_enabled s then (0, None, s)
      else let s1 = emit [SqlitePrepare
                            (''select username, token from auth.identity_token ''
                               @ ''where selected = 1;''),
                          SqliteStep local_stmt] s
           in case select_selected (t_identity_token (db s)) of
                [] \<Rightarrow> (0, None, emit [SqliteFinalize local_stmt] s1)
              | (a, b) # rest \<Rightarrow>
                  (1, Some (take (username_length - 1) a, take (identity_token_length - 1) b),
                   emit [SqliteColumn local_stmt 0, SqliteColumn local_stmt 1,
                         SqliteFinalize local_stmt] s1))"

text \<open>
  What the store does with the float arguments of \<open>db_save_state\<close>.  The float is widened
  to a double, which is exact, and \<open>sqlite3_bind_double\<close> binds a NaN as NULL.  A pattern
  is a NaN when its exponent bits are all ones and its fraction is not zero, that is,
  when its low 31 bits exceed \<open>0x7F800000\<close>.  A real whose value is an integer is stored
  as that integer, so a negative zero (\<open>0x80000000\<close>) is read back as positive zero;
  every other value is read back, and narrowed to a float, unchanged.
\<close>

definition float_is_nan :: "c_float \<Rightarrow> bool" where
  "float_is_nan f = (0x7F800000 < unat f mod 2 ^ 31)"

definition stored_float :: "c_float \<Rightarrow> c_float" where
  "stored_float f = (if f = 0x80000000 then 0 else f)"

text \<open>
  \<open>delete from state;\<close> and \<open>insert into state (x, y, z, rx, ry, flying) values (...)\<close>.
  The five float columns are declared \<open>float not null\<close>: the insert of a row with a NaN,
  bound as NULL, is rejected and leaves the table as it is.
\<close>

definition delete_from_state :: "state_row list \<Rightarrow> state_row list" where
  "delete_from_state tbl = []"

fun insert_into_state :: "state_row \<Rightarrow> state_row list \<Rightarrow> state_row list" where
  "insert_into_state (x, y, z, rx, ry, flying) tbl =
     (if float_is_nan x \<or> float_is_nan y \<or> float_is_nan z \<or> float_is_nan rx \<or> float_is_nan ry
      then tbl
      else tbl @ [(stored_float x, stored_float y, stored_float z, stored_float rx,
                   stored_float ry, flying)])"

definition db_save_state ::
  "c_float \<Rightarrow> c_float \<Rightarrow> c_float \<Rightarrow> c_float \<Rightarrow> c_float \<Rightarrow> c_int \<Rightarrow> world \<Rightarrow> world" where
  "db_save_state x y z rx ry flying s =
     (if \<not> db_enabled s then s
      else emit [SqliteExec ''delete from state;'',
                 SqlitePrepare
                   ''insert into state (x, y, z, rx, ry, flying) values (?, ?, ?, ?, ?, ?);'',
                 SqliteBindDouble local_stmt 1 x,
                 SqliteBindDouble local_stmt 2 y,
                 SqliteBindDouble local_stmt 3 z,
                 SqliteBindDouble local_stmt 4 rx,
                 SqliteBindDouble local_stmt 5 ry,
                 SqliteBindInt local_stmt 6 flying,
                 SqliteStep local_stmt,
                 SqliteFinalize local_stmt]
             (s\<lparr>db := (db s)\<lparr>t_state :=
                    insert_into_state (x, y, z, rx, ry, flying)
                      (delete_from_state (t_state (db s)))\<rparr>\<rparr>))"

text \<open>
  The six output pointers are the second component: \<open>None\<close> when nothing is written to
  them.  The query has no \<open>where\<close> clause; the first row it yields is the one read.
\<close>

definition db_load_state :: "world \<Rightarrow> c_int \<times> state_row option \<times> world" where
  "db_load_state s =
     (if \<not> db_enabled s then (0, None, s)
      else let s1 = emit [SqlitePrepare ''select x, y, z, rx, ry, flying from state;'',
                          SqliteStep local_stmt] s
           in case t_state (db s) of
                [] \<Rightarrow> (0, None, emit [SqliteFinalize local_stmt] s1)
              | row # rest \<Rightarrow>
                  (1, Some row,
                   emit [SqliteColumn local_stmt 0, SqliteColumn local_stmt 1,
                         SqliteColumn local_stmt 2, SqliteColumn local_stmt 3,
                         SqliteColumn local_stmt 4, SqliteColumn local_stmt 5,
                         SqliteFinalize local_stmt] s1))"

definition db_insert_sign ::
  "c_int \<Rightarrow> c_int \<Rightarrow> c_int \<Rightarrow> c_int \<Rightarrow> c_int \<Rightarrow> c_int \<Rightarrow> string \<Rightarrow> world \<Rightarrow> world" where
  "db_insert_sign p q x y z face text s =
     (if \<not> db_enabled s then s
      else emit [SqliteReset insert_sign_stmt,
                 SqliteBindInt insert_sign_stmt 1 p,
                 SqliteBindInt insert_sign_stmt 2 q,
                 SqliteBindInt insert_sign_stmt 3 x,
                 SqliteBindInt insert_sign_stmt 4 y,
                 SqliteBindInt insert_sign_stmt 5 z,
                 SqliteBindInt insert_sign_stmt 6 face,
                 SqliteBindText insert_sign_stmt 7 text,
                 SqliteStep insert_sign_stmt]
             (s\<lparr>db := (db s)\<lparr>t_sign :=
                    insert_or_replace_sign (p, q, x, y, z, face, text) (t_sign (db s))\<rparr>\<rparr>))"

definition db_delete_sign :: "c_int \<Rightarrow> c_int \<Rightarrow> c_int \<Rightarrow> c_int \<Rightarrow> world \<Rightarrow> world" where
  "db_delete_sign x y z face s =
     (if \<not> db_enabled s then s
      else emit [SqliteReset delete_sign_stmt,
                 SqliteBindInt delete_sign_stmt 1 x,
                 SqliteBindInt delete_sign_stmt 2 y,
                 SqliteBindInt delete_sign_stmt 3 z,
                 SqliteBindInt delete_sign_stmt 4 face,
                 SqliteStep delete_sign_stmt]
             (s\<lparr>db := (db s)\<lparr>t_sign := delete_sign x y z face (t_sign (db s))\<rparr>\<rparr>))"

definition db_delete_signs :: "c_int \<Rightarrow> c_int \<Rightarrow> c_int \<Rightarrow> world \<Rightarrow> world" where
  "db_delete_signs x y z s =
     (if \<not> db_enabled s then s
      else emit [SqliteReset delete_signs_stmt,
                 SqliteBindInt delete_signs_stmt 1 x,
                 SqliteBindInt delete_signs_stmt 2 y,
                 SqliteBindInt delete_signs_stmt 3 z,
                 SqliteStep delete_signs_stmt]
             (s\<lparr>db := (db s)\<lparr>t_sign := delete_signs x y z (t_sign (db s))\<rparr>\<rparr>))"

definition db_delete_all_signs :: "world \<Rightarrow> world" where
  "db_delete_all_signs s =
     (if \<not> db_enabled s then s
      else emit [SqliteExec ''delete from sign;''] (s\<lparr>db := (db s)\<lparr>t_sign := []\<rparr>\<rparr>))"

section \<open>The chunk loads\<close>

text \<open>
  \<open>Map\<close>, \<open>map_set\<close>, \<open>SignList\<close> and \<open>sign_list_add\<close> are declared outside \<open>db.c\<close>: the
  destination and the function that writes to it are parameters.  The \<open>while\<close> loop over
  \<open>sqlite3_step\<close> visits the rows of the query in order; each visit is one step and the
  column reads, and a last step ends the loop.
\<close>

definition db_load_blocks ::
  "('m \<Rightarrow> c_int \<Rightarrow> c_int \<Rightarrow> c_int \<Rightarrow> c_int \<Rightarrow> 'm) \<Rightarrow> 'm \<Rightarrow> c_int \<Rightarrow> c_int \<Rightarrow> world \<Rightarrow> 'm \<times> world" where
  "db_load_blocks map_set m p q s =
     (if \<not> db_enabled s then (m, s)
      else let rows = select_xyzw p q (t_block (db s))
           in (foldl (\<lambda>m (x, y, z, w). map_set m x y z w) m rows,
               emit ([MtxLock Load_mtx,
                      SqliteReset load_blocks_stmt,
                      SqliteBindInt load_blocks_stmt 1 p,
                      SqliteBindInt load_blocks_stmt 2 q]
                     @ concat (map (\<lambda>row. [SqliteStep load_blocks_stmt,
                                             SqliteColumn load_blocks_stmt 0,
                                             SqliteColumn load_blocks_stmt 1,
                                             SqliteColumn load_blocks_stmt 2,
                                             SqliteColumn load_blocks_stmt 3]) rows)
                     @ [SqliteStep load_blocks_stmt, MtxUnlock Load_mtx]) s))"

text \<open>In \<open>db_load_damage\<close> a row whose damage \<open>d\<close> is zero is skipped (\<open>continue\<close>).\<close>

definition db_load_damage ::
  "('m \<Rightarrow> c_int \<Rightarrow> c_int \<Rightarrow> c_int \<Rightarrow> c_int \<Rightarrow> 'm) \<Rightarrow> 'm \<Rightarrow> c_int \<Rightarrow> c_int \<Rightarrow> world \<Rightarrow> 'm \<times> world" where
  "db_load_damage map_set m p q s =
     (if \<not> db_enabled s then (m, s)
      else let rows = select_xyzw p q (t_block_damage (db s))
           in (foldl (\<lambda>m (x, y, z, d). if d = 0 then m else map_set m x y z d) m rows,
               emit ([MtxLock Load_mtx,
                      SqliteReset load_block_damage_stmt,
                      SqliteBindInt load_block_damage_stmt 1 p,
                      SqliteBindInt load_block_damage_stmt 2 q]
                     @ concat (map (\<lambda>row. [SqliteStep load_block_damage_stmt,
                                             SqliteColumn load_block_damage_stmt 0,
                                             SqliteColumn load_block_damage_stmt 1,
                                             SqliteColumn load_block_damage_stmt 2,
                                             SqliteColumn load_block_damage_stmt 3]) rows)
                     @ [SqliteStep load_block_damage_stmt, MtxUnlock Load_mtx]) s))"

definition db_load_lights ::
  "('m \<Rightarrow> c_int \<Rightarrow> c_int \<Rightarrow> c_int \<Rightarrow> c_int \<Rightarrow> 'm) \<Rightarrow> 'm \<Rightarrow> c_int \<Rightarrow> c_int \<Rightarrow> world \<Rightarrow> 'm \<times> world" where
  "db_load_lights map_set m p q s =
     (if \<not> db_enabled s then (m, s)
      else let rows = select_xyzw p q (t_light (db s))
           in (foldl (\<lambda>m (x, y, z, w). map_set m x y z w) m rows,
               emit ([MtxLock Load_mtx,
                      SqliteReset load_lights_stmt,
                      SqliteBindInt load_lights_stmt 1 p,
                      SqliteBindInt load_lights_stmt 2 q]
                     @ concat (map (\<lambda>row. [SqliteStep load_lights_stmt,
                                             SqliteColumn load_lights_stmt 0,
                                             SqliteColumn load_lights_stmt 1,
                                             SqliteColumn load_lights_stmt 2,
                                             SqliteColumn load_lights_stmt 3]) rows)
                     @ [SqliteStep load_lights_stmt, MtxUnlock Load_mtx]) s))"

definition db_load_signs ::
  "('l \<Rightarrow> c_int \<Rightarrow> c_int \<Rightarrow> c_int \<Rightarrow> c_int \<Rightarrow> string \<Rightarrow> 'l) \<Rightarrow> 'l \<Rightarrow> c_int \<Rightarrow> c_int \<Rightarrow> world \<Rightarrow> 'l \<times> world" where
  "db_load_signs sign_list_add list p q s =
     (if \<not> db_enabled s then (list, s)
      else let rows = select_signs p q (t_sign (db s))
           in (foldl (\<lambda>l (x, y, z, face, text). sign_list_add l x y z face text) list rows,
               emit ([SqliteReset load_signs_stmt,
                      SqliteBindInt load_signs_stmt 1 p,
                      SqliteBindInt load_signs_stmt 2 q]
                     @ concat (map (\<lambda>row. [SqliteStep load_signs_stmt,
                                             SqliteColumn load_signs_stmt 0,
                                             SqliteColumn load_signs_stmt 1,
                                             SqliteColumn load_signs_stmt 2,
                                             SqliteColumn load_signs_stmt 3,
                                             SqliteColumn load_signs_stmt 4]) rows)
                     @ [SqliteStep load_signs_stmt]) s))"

section \<open>The chunk key read\<close>

text \<open>
  What \<open>sqlite3_step (get_key_stmt)\<close> returns: \<open>SQLITE_ROW\<close> with the first row of the
  query, \<open>SQLITE_DONE\<close> when there is none, or an error code when the store fails.
  Whether the store fails is not determined by \<open>db.c\<close>: it is the argument \<open>fails\<close>.
\<close>

datatype step_result = SQLITE_ROW c_int | SQLITE_DONE | SQLITE_ERROR

definition step_get_key :: "bool \<Rightarrow> Store \<Rightarrow> c_int \<Rightarrow> c_int \<Rightarrow> step_result" where
  "step_get_key fails st p q =
     (if fails then SQLITE_ERROR
      else case select_key p q (t_key st) of
             [] \<Rightarrow> SQLITE_DONE
           | key # rest \<Rightarrow> SQLITE_ROW key)"

definition db_get_key :: "bool \<Rightarrow> c_int \<Rightarrow> c_int \<Rightarrow> world \<Rightarrow> c_int \<times> world" where
  "db_get_key fails p q s =
     (if \<not> db_enabled s then (0, s)
      else let s1 = emit [SqliteReset get_key_stmt,
                          SqliteBindInt get_key_stmt 1 p,
                          SqliteBindInt get_key_stmt 2 q,
                          SqliteStep get_key_stmt] s
           in case step_get_key fails (db s) p q of
                SQLITE_ROW key \<Rightarrow> (key, emit [SqliteColumn get_key_stmt 0] s1)
              | SQLITE_DONE \<Rightarrow> (0, s1)
              | SQLITE_ERROR \<Rightarrow> (0, s1))"

section \<open>Store calls under the read mutex\<close>

fun is_store_call :: "event \<Rightarrow> bool" where
  "is_store_call (SqlitePrepare query) = True"
| "is_store_call (SqliteReset st) = True"
| "is_store_call (SqliteBindInt st i v) = True"
| "is_store_call (SqliteBindDouble st i v) = True"
| "is_store_call (SqliteBindText st i v) = True"
| "is_store_call (SqliteStep st) = True"
| "is_store_call (SqliteColumn st i) = True"
| "is_store_call (SqliteFinalize st) = True"
| "is_store_call (SqliteExec query) = True"
| "is_store_call SqliteChanges = True"
| "is_store_call SqliteClose = True"
| "is_store_call ev = False"

text \<open>
  \<open>reads_guarded held es\<close>: in the calls \<open>es\<close> of one thread, started with \<open>load_mtx\<close>
  held or not, every store call happens while the thread holds \<open>load_mtx\<close>.
\<close>

fun reads_guarded :: "bool \<Rightarrow> event list \<Rightarrow> bool" where
  "reads_guarded held [] = True"
| "reads_guarded held (ev # es) =
     (if ev = MtxLock Load_mtx then reads_guarded True es
      else if ev = MtxUnlock Load_mtx then reads_guarded False es
      else (is_store_call ev \<longrightarrow> held) \<and> reads_guarded held es)"

text \<open>The calls a function adds to the log of \<open>s\<close> on the way to \<open>s'\<close>.\<close>

definition new_events :: "world \<Rightarrow> world \<Rightarrow> event list" where
  "new_events s s' = drop (length (trace s)) (trace s')"

section \<open>Auxiliary queries\<close>

text \<open>
  The values recorded for the block \<open>(x, y, z)\<close> of chunk \<open>(p, q)\<close>: what the select of
  the chunk yields at these coordinates.
\<close>

definition select_w :: "c_int \<Rightarrow> c_int \<Rightarrow> c_int \<Rightarrow> c_int \<Rightarrow> c_int \<Rightarrow> block_row list \<Rightarrow> c_int list" where
  "select_w p q x y z tbl =
     map (\<lambda>(x', y', z', w). w)
       (filter (\<lambda>(x', y', z', w). x' = x \<and> y' = y \<and> z' = z) (select_xyzw p q tbl))"

text \<open>A destination for \<open>map_set\<close> that records the calls made on it, in order.\<close>

definition log_map_set :: "xyzw_row list \<Rightarrow> c_int \<Rightarrow> c_int \<Rightarrow> c_int \<Rightarrow> c_int \<Rightarrow> xyzw_row list" where
  "log_map_set cs x y z w = cs @ [(x, y, z, w)]"

section \<open>What the spec prescribes for a Command\<close>

text \<open>
  From the spec (section 4.3), for comparison with the code's \<open>dispatch\<close>: the effect on
  the store's tables of processing a Command.  \<open>WriteBlock\<close> applies the block write and
  then a block-damage write of 0 at the same coordinates; \<open>WriteLight\<close>,
  \<open>WriteBlockDamage\<close> and \<open>SetKey\<close> apply their single write; \<open>TrimBlockDamage\<close> deletes
  the zero-damage rows of the chunk; \<open>Commit\<close> and \<open>Exit\<close> change no table.
\<close>

definition command_effect :: "RingEntry \<Rightarrow> Store \<Rightarrow> Store" where
  "command_effect e st =
     (case e_type e of
        BLOCK \<Rightarrow>
          st\<lparr>t_block :=
               insert_or_replace_pqxyz (e_p e, e_q e, e_x e, e_y e, e_z e, e_w e) (t_block st),
             t_block_damage :=
               insert_or_replace_pqxyz (e_p e, e_q e, e_x e, e_y e, e_z e, 0) (t_block_damage st)\<rparr>
      | LIGHT \<Rightarrow>
          st\<lparr>t_light :=
               insert_or_replace_pqxyz (e_p e, e_q e, e_x e, e_y e, e_z e, e_w e) (t_light st)\<rparr>
      | KEY \<Rightarrow> st\<lparr>t_key := insert_or_replace_key (e_p e, e_q e, e_key e) (t_key st)\<rparr>
      | COMMIT \<Rightarrow> st
      | EXIT \<Rightarrow> st
      | BLOCK_DAMAGE \<Rightarrow>
          st\<lparr>t_block_damage :=
               insert_or_replace_pqxyz (e_p e, e_q e, e_x e, e_y e, e_z e, e_w e)
                 (t_block_damage st)\<rparr>
      | BLOCK_DAMAGE_TRIM \<Rightarrow>
          st\<lparr>t_block_damage := delete_zero_damage (e_p e) (e_q e) (t_block_damage st)\<rparr>)"

text \<open>
  From the spec (sections 4.3 and 6), for comparison with the code's \<open>dispatch\<close>: the
  requests the store receives for a Command, as calls on the store handle.  A write is
  one execution of its prepared statement with the Command's payload bound in column
  order; \<open>Commit\<close> closes the transaction and opens a new one; \<open>Exit\<close> makes no call.
\<close>

definition execute_6 ::
  "stmt \<Rightarrow> c_int \<Rightarrow> c_int \<Rightarrow> c_int \<Rightarrow> c_int \<Rightarrow> c_int \<Rightarrow> c_int \<Rightarrow> event list" where
  "execute_6 st p q x y z w =
     [SqliteReset st, SqliteBindInt st 1 p, SqliteBindInt st 2 q, SqliteBindInt st 3 x,
      SqliteBindInt st 4 y, SqliteBindInt st 5 z, SqliteBindInt st 6 w, SqliteStep st]"

definition command_store_calls :: "RingEntry \<Rightarrow> event list" where
  "command_store_calls e =
     (case e_type e of
        BLOCK \<Rightarrow>
          execute_6 insert_block_stmt (e_p e) (e_q e) (e_x e) (e_y e) (e_z e) (e_w e)
            @ execute_6 insert_block_damage_stmt (e_p e) (e_q e) (e_x e) (e_y e) (e_z e) 0
      | LIGHT \<Rightarrow> execute_6 insert_light_stmt (e_p e) (e_q e) (e_x e) (e_y e) (e_z e) (e_w e)
      | KEY \<Rightarrow>
          [SqliteReset set_key_stmt, SqliteBindInt set_key_stmt 1 (e_p e),
           SqliteBindInt set_key_stmt 2 (e_q e), SqliteBindInt set_key_stmt 3 (e_key e),
           SqliteStep set_key_stmt]
      | COMMIT \<Rightarrow> [SqliteExec ''commit; begin;'']
      | EXIT \<Rightarrow> []
      | BLOCK_DAMAGE \<Rightarrow>
          execute_6 insert_block_damage_stmt (e_p e) (e_q e) (e_x e) (e_y e) (e_z e) (e_w e)
      | BLOCK_DAMAGE_TRIM \<Rightarrow>
          [SqliteReset trim_block_damage_stmt, SqliteBindInt trim_block_damage_stmt 1 (e_p e),
           SqliteBindInt trim_block_damage_stmt 2 (e_q e), SqliteStep trim_block_damage_stmt])"

text \<open>
  The Commands the worker processes out of a sequence of Commands: all of them up to
  and including the first \<open>Exit\<close>, after which it has stopped.
\<close>

fun until_exit :: "RingEntry list \<Rightarrow> RingEntry list" where
  "until_exit [] = []"
| "until_exit (e # es) = (if e_type e = EXIT then [e] else e # until_exit es)"

section \<open>Invariants of the interleaved runs\<close>

text \<open>The entry the worker holds between its pop and its dispatch, if any.\<close>

definition held :: "world \<Rightarrow> RingEntry list" where
  "held s = (case thrd s of DRAINING e \<Rightarrow> [e] | _ \<Rightarrow> [])"

text \<open>
  \<open>progress s s' es ap\<close>: from \<open>s\<close> to \<open>s'\<close> the calls \<open>es\<close> were logged and the Commands
  \<open>ap\<close> dispatched; pops and pushes agree with the queue, and the store and the store
  calls with what the spec prescribes for \<open>ap\<close>.
\<close>

definition progress :: "world \<Rightarrow> world \<Rightarrow> event list \<Rightarrow> RingEntry list \<Rightarrow> bool" where
  "progress s s' es ap =
     (trace s' = trace s @ es
      \<and> ring_wf (ring s')
      \<and> ring_gets es @ ring_pending (ring s') = ring_pending (ring s) @ ring_puts es
      \<and> held s @ ring_gets es = ap @ held s'
      \<and> db s' = foldl (\<lambda>st e. command_effect e st) (db s) ap
      \<and> filter is_store_call es = concat (map command_store_calls ap)
      \<and> db_enabled s' = db_enabled s)"

text \<open>
  \<open>exit_inv s ap\<close>: the worker thread exists, and among the Commands \<open>ap\<close> dispatched so
  far an \<open>Exit\<close> is the last one, exactly when the worker has stopped.
\<close>

definition exit_inv :: "world \<Rightarrow> RingEntry list \<Rightarrow> bool" where
  "exit_inv s ap =
     (thrd s \<noteq> NOT_STARTED
      \<and> (if thrd s = STOPPED
          then \<exists>g x. ap = g @ [x] \<and> e_type x = EXIT \<and> (\<forall>e \<in> set g. e_type e \<noteq> EXIT)
          else \<forall>e \<in> set ap. e_type e \<noteq> EXIT))"

text \<open>What a running worker has left to process: the entry it holds and the pending ones.\<close>

definition todo :: "world \<Rightarrow> RingEntry list" where
  "todo s = (if thrd s = STOPPED then [] else until_exit (held s @ ring_pending (ring s)))"

section \<open>Two threads under the read mutex\<close>

text \<open>
  Two threads, each making the calls of its own list in order, on the shared store
  handle.  \<open>load_mtx\<close> is a plain mutex: \<open>mtx_lock\<close> returns only while no thread holds it
  (a caller that finds it held stays blocked), and \<open>mtx_unlock\<close> by its holder releases
  it.  \<open>interleaved owner xs ys zs\<close>: with \<open>load_mtx\<close> held by \<open>owner\<close>, the calls \<open>zs\<close>,
  each tagged with its thread, are an execution of the two threads that runs \<open>xs\<close> and
  \<open>ys\<close> to their ends.
\<close>

datatype thread = Thread_1 | Thread_2

definition can_run :: "thread option \<Rightarrow> thread \<Rightarrow> event \<Rightarrow> bool" where
  "can_run owner t ev =
     (if ev = MtxLock Load_mtx then owner = None
      else if ev = MtxUnlock Load_mtx then owner = Some t
      else True)"

definition owner_after :: "thread option \<Rightarrow> thread \<Rightarrow> event \<Rightarrow> thread option" where
  "owner_after owner t ev =
     (if ev = MtxLock Load_mtx then Some t
      else if ev = MtxUnlock Load_mtx then None
      else owner)"

fun interleaved :: "thread option \<Rightarrow> event list \<Rightarrow> event list \<Rightarrow> (thread \<times> event) list \<Rightarrow> bool" where
  "interleaved owner xs ys [] = (xs = [] \<and> ys = [])"
| "interleaved owner xs ys ((Thread_1, ev) # zs) =
     (case xs of
        [] \<Rightarrow> False
      | x # xs' \<Rightarrow>
          x = ev \<and> can_run owner Thread_1 ev
          \<and> interleaved (owner_after owner Thread_1 ev) xs' ys zs)"
| "interleaved owner xs ys ((Thread_2, ev) # zs) =
     (case ys of
        [] \<Rightarrow> False
      | y # ys' \<Rightarrow>
          y = ev \<and> can_run owner Thread_2 ev
          \<and> interleaved (owner_after owner Thread_2 ev) xs ys' zs)"

text \<open>The calls of one thread, tagged with it.\<close>

definition by_thread :: "thread \<Rightarrow> event list \<Rightarrow> (thread \<times> event) list" where
  "by_thread t es = map (Pair t) es"

text \<open>
  The three chunk loads that fill a \<open>Map\<close>, and the calls one of them makes from a state
  (they do not depend on the destination).
\<close>

datatype chunk_load = Load_blocks | Load_lights | Load_damage

definition chunk_load_calls :: "chunk_load \<Rightarrow> c_int \<Rightarrow> c_int \<Rightarrow> world \<Rightarrow> event list" where
  "chunk_load_calls k p q s =
     (case k of
        Load_blocks \<Rightarrow> new_events s (snd (db_load_blocks (\<lambda>m x y z w. m) () p q s))
      | Load_lights \<Rightarrow> new_events s (snd (db_load_lights (\<lambda>m x y z w. m) () p q s))
      | Load_damage \<Rightarrow> new_events s (snd (db_load_damage (\<lambda>m x y z w. m) () p q s)))"

text \<open>
  A list of calls that is empty, or that starts by locking \<open>load_mtx\<close>, ends by unlocking
  it, and neither locks nor unlocks it in between.
\<close>

definition bracketed :: "event list \<Rightarrow> bool" where
  "bracketed xs =
     (xs = []
      \<or> (\<exists>body. xs = MtxLock Load_mtx # body @ [MtxUnlock Load_mtx]
            \<and> MtxLock Load_mtx \<notin> set body \<and> MtxUnlock Load_mtx \<notin> set body))"

section \<open>Example inputs\<close>

abbreviation (input) entry_a :: RingEntry where
  "entry_a \<equiv> \<lparr>e_type = LIGHT, e_p = 0, e_q = 0, e_x = 1, e_y = 2, e_z = 3, e_w = 9, e_key = 0\<rparr>"

abbreviation (input) entry_b :: RingEntry where
  "entry_b \<equiv> \<lparr>e_type = KEY, e_p = 4, e_q = 5, e_x = 0, e_y = 0, e_z = 0, e_w = 0, e_key = 7\<rparr>"

abbreviation (input) full_ring :: Ring where
  "full_ring \<equiv> \<lparr>ring_capacity = 2, ring_start = 1, ring_end = 0, ring_data = [entry_a, entry_b]\<rparr>"

abbreviation (input) damaged_store :: Store where
  "damaged_store \<equiv> \<lparr>t_state = [], t_block = [(0, 0, 1, 2, 3, 7)], t_light = [], t_key = [(0, 0, 5)],
     t_sign = [(0, 0, 1, 2, 3, 4, ''hi'')],
     t_block_damage = [(0, 0, 1, 2, 3, 4), (0, 0, 1, 2, 4, 0), (0, 1, 1, 2, 3, 0)],
     t_identity_token = []\<rparr>"

abbreviation (input) block_55 :: RingEntry where
  "block_55 \<equiv> \<lparr>e_type = BLOCK, e_p = 0, e_q = 0, e_x = 1, e_y = 2, e_z = 3, e_w = 55, e_key = 0\<rparr>"

abbreviation (input) trim_00 :: RingEntry where
  "trim_00 \<equiv> \<lparr>e_type = BLOCK_DAMAGE_TRIM, e_p = 0, e_q = 0, e_x = 0, e_y = 0, e_z = 0, e_w = 0, e_key = 0\<rparr>"

abbreviation (input) small_ring :: Ring where
  "small_ring \<equiv> \<lparr>ring_capacity = 2, ring_start = 0, ring_end = 1, ring_data = [block_55, trim_00]\<rparr>"

abbreviation (input) world_1 :: world where
  "world_1 \<equiv> \<lparr>db_enabled = True, db = damaged_store, ring = small_ring, thrd = WAITING, trace = []\<rparr>"

abbreviation (input) world_off :: world where
  "world_off \<equiv> \<lparr>db_enabled = False, db = damaged_store, ring = small_ring, thrd = NOT_STARTED, trace = []\<rparr>"

abbreviation (input) busy_schedule :: "action list" where
  "busy_schedule \<equiv> [Producer (Set_key 0 0 7), Worker, Worker, Producer Commit, Worker]"

abbreviation (input) scenario_schedule :: "action list" where
  "scenario_schedule \<equiv>
     [Producer (Insert_block 0 0 1 2 3 55), Worker, Producer (Insert_light 0 0 1 2 3 9),
      Producer Commit, Worker]"

section \<open>The queue: size, pop, push and growth\<close>

lemma ring_size_cases:
  assumes "ring_wf r"
  shows "ring_size r = (if ring_start r \<le> ring_end r then ring_end r - ring_start r
                        else ring_capacity r + ring_end r - ring_start r)"
proof (cases "ring_start r \<le> ring_end r")
  case True
  with assms have "(int (ring_end r) - int (ring_start r)) mod int (ring_capacity r)
      = int (ring_end r) - int (ring_start r)"
    by (simp add: ring_wf_def)
  with True show ?thesis by (simp add: ring_size_def)
next
  case False
  let ?a = "int (ring_end r) - int (ring_start r)" and ?c = "int (ring_capacity r)"
  from False assms have "0 \<le> ?a + ?c" "?a + ?c < ?c"
    by (simp_all add: ring_wf_def)
  then have "(?a + ?c) mod ?c = ?a + ?c"
    by (rule mod_pos_pos_trivial)
  then have "?a mod ?c = ?a + ?c"
    by simp
  with False assms show ?thesis by (simp add: ring_size_def ring_wf_def)
qed

lemma ring_size_less: "ring_wf r \<Longrightarrow> ring_size r < ring_capacity r"
  by (auto simp: ring_size_cases ring_wf_def)

lemma ring_size_end: "ring_wf r \<Longrightarrow> (ring_start r + ring_size r) mod ring_capacity r = ring_end r"
  by (simp add: ring_size_cases ring_wf_def le_mod_geq)

lemma ring_size_empty: "ring_wf r \<Longrightarrow> (ring_size r = 0) = ring_empty r"
  by (auto simp: ring_size_cases ring_wf_def ring_empty_def)

lemma ring_size_full:
  assumes "ring_wf r"
  shows "ring_full r = (Suc (ring_size r) = ring_capacity r)"
proof (cases "Suc (ring_end r) = ring_capacity r")
  case True
  then have "(ring_end r + 1) mod ring_capacity r = 0" by simp
  with True assms show ?thesis
    by (auto simp: ring_size_cases ring_full_def ring_wf_def)
next
  case False
  with assms have "(ring_end r + 1) mod ring_capacity r = ring_end r + 1"
    by (simp add: ring_wf_def)
  with False assms show ?thesis
    by (auto simp: ring_size_cases ring_full_def ring_wf_def)
qed

lemma ring_get_None: "ring_wf r \<Longrightarrow> (ring_get r = None) = (ring_pending r = [])"
  by (simp add: ring_get_def ring_pending_def flip: ring_size_empty)

lemma ring_get_wf: "ring_wf r \<Longrightarrow> ring_get r = Some (e, r') \<Longrightarrow> ring_wf r'"
  by (auto simp: ring_get_def ring_wf_def split: if_splits)

lemma ring_get_size:
  assumes "ring_wf r" "ring_get r = Some (e, r')"
  shows "ring_size r = Suc (ring_size r')"
proof -
  from assms have ne: "ring_start r \<noteq> ring_end r"
    and r': "r' = r\<lparr>ring_start := (ring_start r + 1) mod ring_capacity r\<rparr>"
    by (auto simp: ring_get_def ring_empty_def split: if_splits)
  have wf': "ring_wf r'" using assms by (rule ring_get_wf)
  show ?thesis
    using assms(1) ne unfolding ring_size_cases[OF assms(1)] ring_size_cases[OF wf']
    by (auto simp: r' ring_wf_def mod_Suc)
qed

lemma ring_get_pending:
  assumes "ring_wf r" "ring_get r = Some (e, r')"
  shows "ring_pending r = e # ring_pending r'"
proof -
  let ?c = "ring_capacity r" and ?s = "ring_start r" and ?d = "ring_data r"
  from assms have e: "e = ?d ! ?s"
    and r': "r' = r\<lparr>ring_start := (?s + 1) mod ?c\<rparr>"
    by (auto simp: ring_get_def split: if_splits)
  have sz: "ring_size r = Suc (ring_size r')" using assms by (rule ring_get_size)
  have s: "?s mod ?c = ?s" using assms(1) by (simp add: ring_wf_def)
  have shift: "(?s + Suc i) mod ?c = ((?s + 1) mod ?c + i) mod ?c" for i
    by (simp add: mod_add_left_eq)
  have "ring_pending r = map (\<lambda>i. ?d ! ((?s + i) mod ?c)) (0 # map Suc [0 ..< ring_size r'])"
    unfolding ring_pending_def sz by (simp only: upt_rec[of 0 "Suc _"] map_Suc_upt) simp
  also have "\<dots> = ?d ! ?s # map (\<lambda>i. ?d ! (((?s + 1) mod ?c + i) mod ?c)) [0 ..< ring_size r']"
    by (simp only: list.map map_map comp_def shift add_0_right s)
  also have "\<dots> = e # ring_pending r'"
    by (simp add: ring_pending_def e r')
  finally show ?thesis .
qed

lemma mod_add_inj:
  fixes a b c s :: nat
  assumes "a < c" "b < c" "(s + a) mod c = (s + b) mod c"
  shows "a = b"
proof -
  have le: "x = y" if "x \<le> y" "y < c" "(s + x) mod c = (s + y) mod c" for x y :: nat
  proof -
    from that have "s + x \<le> s + y" by simp
    moreover from that have "(s + y) mod c = (s + x) mod c" by simp
    ultimately have "c dvd (s + y) - (s + x)"
      using mod_eq_dvd_iff_nat[of "s + x" "s + y" c] by blast
    then have "c dvd y - x" by simp
    moreover from that have "y - x < c" by simp
    ultimately have "y - x = 0" using dvd_imp_le[of c "y - x"] by (cases "y - x = 0") simp_all
    with that show ?thesis by simp
  qed
  show ?thesis
  proof (cases "a \<le> b")
    case True
    with assms show ?thesis by (rule_tac le) simp_all
  next
    case False
    with assms have "b = a" by (rule_tac le) simp_all
    then show ?thesis by simp
  qed
qed

lemma ring_append_wf: "ring_wf r \<Longrightarrow> ring_wf (ring_append r e)"
  by (simp add: ring_wf_def ring_append_def)

lemma ring_append_size:
  assumes "ring_wf r" "\<not> ring_full r"
  shows "ring_size (ring_append r e) = Suc (ring_size r)"
proof -
  let ?r' = "ring_append r e" and ?c = "ring_capacity r"
  have wf': "ring_wf ?r'" using assms(1) by (rule ring_append_wf)
  have "Suc (ring_size r) < ?c"
    using assms ring_size_less[OF assms(1)] by (simp add: ring_size_full)
  moreover have "ring_size ?r' < ?c"
    using ring_size_less[OF wf'] by (simp add: ring_append_def)
  moreover have "(ring_start r + ring_size ?r') mod ?c = (ring_end r + 1) mod ?c"
    using ring_size_end[OF wf'] by (simp add: ring_append_def)
  moreover have "(ring_start r + Suc (ring_size r)) mod ?c = (ring_end r + 1) mod ?c"
    using ring_size_end[OF assms(1)] by (metis Suc_eq_plus1 add_Suc_right mod_Suc_eq)
  ultimately show ?thesis
    using mod_add_inj[of "ring_size ?r'" ?c "Suc (ring_size r)" "ring_start r"] by simp
qed

lemma ring_append_pending:
  assumes "ring_wf r" "\<not> ring_full r"
  shows "ring_pending (ring_append r e) = ring_pending r @ [e]"
proof -
  let ?c = "ring_capacity r" and ?s = "ring_start r" and ?d = "ring_data r"
  have other: "?d[ring_end r := e] ! ((?s + i) mod ?c) = ?d ! ((?s + i) mod ?c)"
    if "i < ring_size r" for i
  proof -
    have "(?s + i) mod ?c \<noteq> ring_end r"
    proof
      assume "(?s + i) mod ?c = ring_end r"
      then have "(?s + i) mod ?c = (?s + ring_size r) mod ?c"
        by (simp add: ring_size_end[OF assms(1)])
      with that ring_size_less[OF assms(1)] have "i = ring_size r"
        using mod_add_inj[of i ?c "ring_size r" ?s] by simp
      with that show False by simp
    qed
    then show ?thesis by simp
  qed
  have last: "?d[ring_end r := e] ! ((?s + ring_size r) mod ?c) = e"
    using assms(1) by (simp add: ring_size_end ring_wf_def)
  have "ring_pending (ring_append r e)
      = map (\<lambda>i. ?d[ring_end r := e] ! ((?s + i) mod ?c)) [0 ..< Suc (ring_size r)]"
    unfolding ring_pending_def ring_append_size[OF assms] by (simp add: ring_append_def)
  also have "\<dots> = map (\<lambda>i. ?d ! ((?s + i) mod ?c)) [0 ..< ring_size r] @ [e]"
    using other last by simp
  finally show ?thesis by (simp add: ring_pending_def)
qed

lemma ring_pending_length: "length (ring_pending r) = ring_size r"
  by (simp add: ring_pending_def)

lemma ring_grow_wf: "ring_wf r \<Longrightarrow> ring_wf (ring_grow r)"
  using ring_size_less[of r] by (simp add: ring_wf_def ring_grow_def ring_pending_length)

lemma ring_grow_size: "ring_wf r \<Longrightarrow> ring_size (ring_grow r) = ring_size r"
  using ring_size_less[of r] ring_size_cases[OF ring_grow_wf, of r]
  by (simp add: ring_grow_def)

lemma ring_grow_not_full: "ring_wf r \<Longrightarrow> \<not> ring_full (ring_grow r)"
  using ring_size_less[of r] ring_size_full[OF ring_grow_wf, of r]
  by (simp add: ring_grow_size) (simp add: ring_grow_def)

lemma ring_grow_pending:
  assumes "ring_wf r"
  shows "ring_pending (ring_grow r) = ring_pending r"
proof (rule nth_equalityI)
  show "length (ring_pending (ring_grow r)) = length (ring_pending r)"
    using assms by (simp add: ring_pending_length ring_grow_size)
next
  fix i assume "i < length (ring_pending (ring_grow r))"
  then have i: "i < ring_size r"
    using assms by (simp add: ring_pending_length ring_grow_size)
  with ring_size_less[OF assms] have "i mod (2 * ring_capacity r) = i" by simp
  with i show "ring_pending (ring_grow r) ! i = ring_pending r ! i"
    unfolding ring_pending_def[of "ring_grow r"] ring_grow_size[OF assms]
    by (simp add: ring_grow_def nth_append ring_pending_length)
qed

lemma ring_put_append:
  "ring_put r e = ring_append (if ring_full r then ring_grow r else r) e"
  by (simp add: ring_put_def ring_append_def Let_def)

lemma ring_put_wf: "ring_wf r \<Longrightarrow> ring_wf (ring_put r e)"
  by (simp add: ring_put_append ring_append_wf ring_grow_wf)

lemma ring_put_pending: "ring_wf r \<Longrightarrow> ring_pending (ring_put r e) = ring_pending r @ [e]"
  by (simp add: ring_put_append ring_append_pending ring_grow_wf ring_grow_not_full ring_grow_pending)

lemma ring_alloc_wf: "0 < n \<Longrightarrow> ring_wf (ring_alloc n)"
  by (simp add: ring_wf_def ring_alloc_def)

lemma ring_alloc_pending: "ring_pending (ring_alloc n) = []"
  by (simp add: ring_pending_def ring_alloc_def ring_size_def)

lemma ring_drain_pending: "ring_wf r \<Longrightarrow> ring_drain r = Some (ring_pending r)"
proof (induction "ring_size r" arbitrary: r)
  case 0
  then have "ring_get r = None"
    by (simp add: ring_get_def ring_size_empty)
  moreover from this 0 have "ring_pending r = []"
    by (simp add: ring_get_None)
  ultimately show ?case
    by (subst ring_drain.simps) simp
next
  case (Suc n)
  then have "ring_get r \<noteq> None"
    by (simp add: ring_get_def flip: ring_size_empty)
  then obtain e r' where get: "ring_get r = Some (e, r')" by auto
  with Suc.prems have wf': "ring_wf r'" and sz: "ring_size r = Suc (ring_size r')"
    and pend: "ring_pending r = e # ring_pending r'"
    by (auto intro: ring_get_wf ring_get_size ring_get_pending)
  from sz Suc.hyps(2) have "n = ring_size r'" by simp
  then have "ring_drain r' = Some (ring_pending r')"
    using wf' by (rule Suc.hyps(1))
  with get pend show ?case
    by (subst ring_drain.simps) simp
qed

text \<open>
  Claim C3.  On a well-formed queue whose buffer is full, growth doubles the capacity
  and copies the pending entries to the front of the new storage, with \<open>start\<close> reset
  to 0 and \<open>end\<close> to the size; the size is unchanged and a full drain yields the same
  sequence as before.  A push on the full queue grows and then appends: the capacity
  doubles, and a full drain yields the old sequence followed by the new entry.
\<close>

theorem growth_preserves_pending:
  assumes "ring_wf r" and "ring_full r"
  shows "ring_capacity (ring_grow r) = 2 * ring_capacity r
       \<and> ring_start (ring_grow r) = 0
       \<and> ring_end (ring_grow r) = ring_size r
       \<and> take (ring_size r) (ring_data (ring_grow r)) = ring_pending r
       \<and> ring_size (ring_grow r) = ring_size r
       \<and> ring_drain r = Some (ring_pending r)
       \<and> ring_drain (ring_grow r) = ring_drain r
       \<and> ring_capacity (ring_put r e) = 2 * ring_capacity r
       \<and> ring_start (ring_put r e) = 0
       \<and> ring_end (ring_put r e) = ring_size r + 1
       \<and> take (ring_size r + 1) (ring_data (ring_put r e)) = ring_pending r @ [e]
       \<and> ring_drain (ring_put r e) = Some (ring_pending r @ [e])"
proof -
  have wfg: "ring_wf (ring_grow r)" using assms(1) by (rule ring_grow_wf)
  have full: "Suc (ring_size r) = ring_capacity r"
    using assms by (simp add: ring_size_full)
  have put: "ring_put r e = ring_append (ring_grow r) e"
    using assms(2) by (simp add: ring_put_def)
  have g1: "ring_capacity (ring_grow r) = 2 * ring_capacity r"
    and g2: "ring_start (ring_grow r) = 0"
    and g3: "ring_end (ring_grow r) = ring_size r"
    and g4: "take (ring_size r) (ring_data (ring_grow r)) = ring_pending r"
    by (simp_all add: ring_grow_def ring_pending_length)
  have g5: "ring_size (ring_grow r) = ring_size r"
    using assms(1) by (rule ring_grow_size)
  have d1: "ring_drain r = Some (ring_pending r)"
    using assms(1) by (rule ring_drain_pending)
  have d2: "ring_drain (ring_grow r) = ring_drain r"
    using assms(1) wfg by (simp add: ring_drain_pending ring_grow_pending)
  have p1: "ring_capacity (ring_put r e) = 2 * ring_capacity r"
    and p2: "ring_start (ring_put r e) = 0"
    by (simp_all add: put ring_append_def ring_grow_def)
  have p3: "ring_end (ring_put r e) = ring_size r + 1"
    using full by (simp add: put ring_append_def ring_grow_def)
  have "ring_data (ring_put r e)
      = (ring_pending r @ replicate (2 * ring_capacity r - ring_size r) blank_entry)[ring_size r := e]"
    by (simp add: put ring_append_def ring_grow_def)
  also have "\<dots> = ring_pending r @ (replicate (2 * ring_capacity r - ring_size r) blank_entry)[0 := e]"
    by (simp add: list_update_append ring_pending_length)
  also have "take (ring_size r + 1) \<dots> = ring_pending r @ [e]"
  proof -
    from full have "ring_capacity r - ring_size r = 1" by simp
    then show ?thesis
      by (cases "2 * ring_capacity r - ring_size r") (simp_all add: ring_pending_length)
  qed
  finally have p4: "take (ring_size r + 1) (ring_data (ring_put r e)) = ring_pending r @ [e]" .
  have p5: "ring_drain (ring_put r e) = Some (ring_pending r @ [e])"
    using assms(1) by (simp add: ring_drain_pending ring_put_wf ring_put_pending)
  from g1 g2 g3 g4 g5 d1 d2 p1 p2 p3 p4 p5 show ?thesis by blast
qed

theorem growth_preserves_pending_witness:
  "ring_wf full_ring \<and> ring_full full_ring
   \<and> ring_pending full_ring = [entry_b]
   \<and> ring_capacity (ring_grow full_ring) = 4
   \<and> ring_size (ring_grow full_ring) = 1
   \<and> ring_drain (ring_grow full_ring) = Some [entry_b]
   \<and> ring_drain (ring_put full_ring entry_a) = Some [entry_b, entry_a]"
proof -
  have wf: "ring_wf full_ring" by (simp add: ring_wf_def)
  have full: "ring_full full_ring" by (simp add: ring_full_def)
  have sz: "ring_size full_ring = 1" by (simp add: ring_size_def)
  have pend: "ring_pending full_ring = [entry_b]"
    by (simp add: ring_pending_def ring_size_def)
  from growth_preserves_pending [OF wf full, of entry_a] wf full pend sz
  show ?thesis by simp
qed

section \<open>The worker's writes\<close>

lemma select_w_insert_or_replace:
  "select_w p q x y z (insert_or_replace_pqxyz (p, q, x, y, z, w) tbl) = [w]"
  by (induction tbl) (auto simp: select_w_def select_xyzw_def)

lemma trace_emit [simp]: "trace (emit es s) = trace s @ es"
  and db_emit [simp]: "db (emit es s) = db s"
  and ring_emit [simp]: "ring (emit es s) = ring s"
  and thrd_emit [simp]: "thrd (emit es s) = thrd s"
  and db_enabled_emit [simp]: "db_enabled (emit es s) = db_enabled s"
  by (simp_all add: emit_def)

lemma new_events_append: "trace s' = trace s @ es \<Longrightarrow> new_events s s' = es"
  by (simp add: new_events_def)

text \<open>
  Claim C2.  When the worker pops a \<open>WriteBlock\<close> Command, it runs the block insert and
  then the block-damage insert with value 0 at the same coordinates, in this order;
  afterwards the block table records \<open>w\<close> and the damage table records 0 for
  \<open>(p, q, x, y, z)\<close>.
\<close>

theorem write_block_clears_damage:
  assumes "thrd s = WAITING" and "ring_get (ring s) = Some (e, r')" and "e_type e = BLOCK"
  shows "thrd (db_worker_run_step s) = DRAINING e
       \<and> thrd (db_worker_run_step (db_worker_run_step s)) = WAITING
       \<and> new_events (db_worker_run_step s) (db_worker_run_step (db_worker_run_step s)) =
           [SqliteReset insert_block_stmt,
            SqliteBindInt insert_block_stmt 1 (e_p e),
            SqliteBindInt insert_block_stmt 2 (e_q e),
            SqliteBindInt insert_block_stmt 3 (e_x e),
            SqliteBindInt insert_block_stmt 4 (e_y e),
            SqliteBindInt insert_block_stmt 5 (e_z e),
            SqliteBindInt insert_block_stmt 6 (e_w e),
            SqliteStep insert_block_stmt,
            SqliteReset insert_block_damage_stmt,
            SqliteBindInt insert_block_damage_stmt 1 (e_p e),
            SqliteBindInt insert_block_damage_stmt 2 (e_q e),
            SqliteBindInt insert_block_damage_stmt 3 (e_x e),
            SqliteBindInt insert_block_damage_stmt 4 (e_y e),
            SqliteBindInt insert_block_damage_stmt 5 (e_z e),
            SqliteBindInt insert_block_damage_stmt 6 0,
            SqliteStep insert_block_damage_stmt]
       \<and> select_w (e_p e) (e_q e) (e_x e) (e_y e) (e_z e)
            (t_block (db (db_worker_run_step (db_worker_run_step s)))) = [e_w e]
       \<and> select_w (e_p e) (e_q e) (e_x e) (e_y e) (e_z e)
            (t_block_damage (db (db_worker_run_step (db_worker_run_step s)))) = [0]"
proof -
  let ?s1 = "db_worker_run_step s"
  have s1: "?s1 = emit [MtxLock Mtx, RingGet e, MtxUnlock Mtx] (s\<lparr>ring := r', thrd := DRAINING e\<rparr>)"
    using assms(1,2) by (simp add: db_worker_run_step_def)
  have t1: "thrd ?s1 = DRAINING e" by (simp add: s1)
  have s2: "db_worker_run_step ?s1 = (dispatch e ?s1)\<lparr>thrd := WAITING\<rparr>"
    using assms(3) by (simp add: db_worker_run_step_def[of ?s1] t1)
  have d: "dispatch e ?s1 =
     db_insert_block_damage' (e_p e) (e_q e) (e_x e) (e_y e) (e_z e) 0
            (db_insert_block' (e_p e) (e_q e) (e_x e) (e_y e) (e_z e) (e_w e) ?s1)"
    using assms(3) by (simp add: dispatch_def)
  show ?thesis
    unfolding s2 d
    by (simp add: t1 db_insert_block_damage'_def db_insert_block'_def select_w_insert_or_replace
          new_events_def del: insert_or_replace_pqxyz.simps)
qed

theorem write_block_clears_damage_witness:
  "thrd world_1 = WAITING
   \<and> ring_get (ring world_1) = Some (block_55, small_ring\<lparr>ring_start := 1\<rparr>)
   \<and> e_type block_55 = BLOCK
   \<and> select_w 0 0 1 2 3 (t_block_damage (db world_1)) = [4]
   \<and> select_w 0 0 1 2 3 (t_block_damage (db (db_worker_run_step (db_worker_run_step world_1)))) = [0]
   \<and> select_w 0 0 1 2 3 (t_block (db (db_worker_run_step (db_worker_run_step world_1)))) = [55]"
proof -
  have h1: "thrd world_1 = WAITING" by simp
  have h2: "ring_get (ring world_1) = Some (block_55, small_ring\<lparr>ring_start := 1\<rparr>)"
    by (simp add: ring_get_def ring_empty_def)
  have h3: "e_type block_55 = BLOCK" by simp
  have h4: "select_w 0 0 1 2 3 (t_block_damage (db world_1)) = [4]"
    by (simp add: select_w_def select_xyzw_def)
  from write_block_clears_damage [OF h1 h2 h3] h1 h2 h3 h4 show ?thesis by simp
qed

text \<open>
  Claim C5.  Processing a \<open>TrimBlockDamage (p, q)\<close> Command deletes from \<open>block_damage\<close>
  exactly the rows of chunk \<open>(p, q)\<close> whose damage is 0: the rows with another damage
  and the rows of other chunks stay, in their order, and no other table changes.
\<close>

theorem trim_deletes_zero_damage_of_chunk:
  assumes "e_type e = BLOCK_DAMAGE_TRIM"
  shows "db (dispatch e s) = (db s)\<lparr>t_block_damage := t_block_damage (db (dispatch e s))\<rparr>
       \<and> set (t_block_damage (db (dispatch e s)))
           = set (t_block_damage (db s))
               - {(p', q', x, y, z, w). p' = e_p e \<and> q' = e_q e \<and> w = 0}
       \<and> filter (\<lambda>(p', q', x, y, z, w). w \<noteq> 0) (t_block_damage (db (dispatch e s)))
           = filter (\<lambda>(p', q', x, y, z, w). w \<noteq> 0) (t_block_damage (db s))
       \<and> filter (\<lambda>(p', q', x, y, z, w). \<not> (p' = e_p e \<and> q' = e_q e))
             (t_block_damage (db (dispatch e s)))
           = filter (\<lambda>(p', q', x, y, z, w). \<not> (p' = e_p e \<and> q' = e_q e))
               (t_block_damage (db s))
       \<and> new_events s (dispatch e s) =
           [SqliteReset trim_block_damage_stmt,
            SqliteBindInt trim_block_damage_stmt 1 (e_p e),
            SqliteBindInt trim_block_damage_stmt 2 (e_q e),
            SqliteStep trim_block_damage_stmt]"
proof -
  have d: "dispatch e s = db_block_damage_trim' (e_p e) (e_q e) s"
    using assms by (simp add: dispatch_def)
  have a: "db (dispatch e s) = (db s)\<lparr>t_block_damage := t_block_damage (db (dispatch e s))\<rparr>"
    by (simp add: d db_block_damage_trim'_def)
  have t: "t_block_damage (db (dispatch e s)) = delete_zero_damage (e_p e) (e_q e) (t_block_damage (db s))"
    by (simp add: d db_block_damage_trim'_def)
  have b: "set (t_block_damage (db (dispatch e s)))
           = set (t_block_damage (db s))
               - {(p', q', x, y, z, w). p' = e_p e \<and> q' = e_q e \<and> w = 0}"
    unfolding t by (auto simp: delete_zero_damage_def)
  have c: "filter (\<lambda>(p', q', x, y, z, w). w \<noteq> 0) (t_block_damage (db (dispatch e s)))
           = filter (\<lambda>(p', q', x, y, z, w). w \<noteq> 0) (t_block_damage (db s))"
    unfolding t delete_zero_damage_def filter_filter
    by (rule filter_cong) auto
  have f: "filter (\<lambda>(p', q', x, y, z, w). \<not> (p' = e_p e \<and> q' = e_q e))
             (t_block_damage (db (dispatch e s)))
           = filter (\<lambda>(p', q', x, y, z, w). \<not> (p' = e_p e \<and> q' = e_q e))
               (t_block_damage (db s))"
    unfolding t delete_zero_damage_def filter_filter
    by (rule filter_cong) auto
  have g: "new_events s (dispatch e s) =
           [SqliteReset trim_block_damage_stmt,
            SqliteBindInt trim_block_damage_stmt 1 (e_p e),
            SqliteBindInt trim_block_damage_stmt 2 (e_q e),
            SqliteStep trim_block_damage_stmt]"
    by (simp add: d db_block_damage_trim'_def new_events_def)
  from a b c f g show ?thesis by blast
qed

theorem trim_deletes_zero_damage_of_chunk_witness:
  "e_type trim_00 = BLOCK_DAMAGE_TRIM
   \<and> t_block_damage (db world_1) = [(0, 0, 1, 2, 3, 4), (0, 0, 1, 2, 4, 0), (0, 1, 1, 2, 3, 0)]
   \<and> t_block_damage (db (dispatch trim_00 world_1)) = [(0, 0, 1, 2, 3, 4), (0, 1, 1, 2, 3, 0)]
   \<and> set (t_block_damage (db (dispatch trim_00 world_1)))
       = set (t_block_damage (db world_1)) - {(p', q', x, y, z, w). p' = 0 \<and> q' = 0 \<and> w = 0}"
proof -
  have h: "e_type trim_00 = BLOCK_DAMAGE_TRIM" by simp
  have v: "t_block_damage (db (dispatch trim_00 world_1)) = [(0, 0, 1, 2, 3, 4), (0, 1, 1, 2, 3, 0)]"
    by (simp add: dispatch_def db_block_damage_trim'_def delete_zero_damage_def)
  from trim_deletes_zero_damage_of_chunk [OF h, of world_1]
  have "set (t_block_damage (db (dispatch trim_00 world_1)))
       = set (t_block_damage (db world_1)) - {(p', q', x, y, z, w). p' = 0 \<and> q' = 0 \<and> w = 0}"
    by simp
  with h v show ?thesis by simp
qed

section \<open>The immediate reads\<close>

text \<open>
  Claim C7.  \<open>db_get_key\<close> returns 0 when the \<open>key\<close> table has no row for \<open>(p, q)\<close> and
  when the store query fails, so the two cannot be told apart; a result other than 0 is
  the key of a row that the point query yielded, and when the query yields a row its
  key is the result.
\<close>

theorem get_key_zero_on_missing_or_error:
  "(select_key p q (t_key (db s)) = [] \<longrightarrow> fst (db_get_key fails p q s) = 0)
   \<and> (fails \<longrightarrow> fst (db_get_key fails p q s) = 0)
   \<and> (fst (db_get_key fails p q s) \<noteq> 0 \<longrightarrow>
        db_enabled s \<and> \<not> fails
        \<and> step_get_key fails (db s) p q = SQLITE_ROW (fst (db_get_key fails p q s))
        \<and> (\<exists>rest. select_key p q (t_key (db s)) = fst (db_get_key fails p q s) # rest))
   \<and> (db_enabled s \<and> \<not> fails \<and> select_key p q (t_key (db s)) = key # rest \<longrightarrow>
        fst (db_get_key fails p q s) = key)"
  by (auto simp: db_get_key_def step_get_key_def Let_def split: list.splits)

theorem get_key_zero_on_missing_or_error_witness:
  "select_key 3 3 (t_key (db world_1)) = []
   \<and> fst (db_get_key False 3 3 world_1) = 0
   \<and> fst (db_get_key True 0 0 world_1) = 0
   \<and> select_key 0 0 (t_key (db world_1)) = [5]
   \<and> fst (db_get_key False 0 0 world_1) = 5"
proof -
  have h1: "select_key 3 3 (t_key (db world_1)) = []"
    and h2: "select_key 0 0 (t_key (db world_1)) = [5]"
    by (simp_all add: select_key_def)
  have h3: "db_enabled world_1" by simp
  from get_key_zero_on_missing_or_error [of 3 3 world_1 False] h1
  have a: "fst (db_get_key False 3 3 world_1) = 0" by blast
  from get_key_zero_on_missing_or_error [of 0 0 world_1 True]
  have b: "fst (db_get_key True 0 0 world_1) = 0" by blast
  from get_key_zero_on_missing_or_error [of 0 0 world_1 False 5 "[]"] h2 h3
  have c: "fst (db_get_key False 0 0 world_1) = 5" by blast
  from h1 h2 a b c show ?thesis by blast
qed

lemma foldl_skip_zero:
  "foldl (\<lambda>m (x, y, z, d). if d = 0 then m else f m x y z d) m rows
     = foldl (\<lambda>m (x, y, z, d). f m x y z d) m (filter (\<lambda>(x, y, z, d). d \<noteq> 0) rows)"
  by (induction rows arbitrary: m) (auto split: prod.splits)

lemma foldl_log_map_set:
  "foldl (\<lambda>cs (x, y, z, d). log_map_set cs x y z d) cs rows = cs @ rows"
  by (induction rows arbitrary: cs) (auto simp: log_map_set_def)

text \<open>
  Claim C9.  \<open>db_load_damage\<close> calls \<open>map_set\<close> exactly for the rows of the chunk whose
  damage is not zero, in the order of the query: a row with damage 0 is skipped and
  causes no write, so no call sets a zero damage, and whatever the destination is, it
  is the result of those calls.
\<close>

theorem load_damage_skips_zero:
  "fst (db_load_damage log_map_set [] p q s)
     = (if db_enabled s
        then filter (\<lambda>(x, y, z, d). d \<noteq> 0) (select_xyzw p q (t_block_damage (db s)))
        else [])
   \<and> (\<forall>(x, y, z, d) \<in> set (fst (db_load_damage log_map_set [] p q s)). d \<noteq> 0)
   \<and> fst (db_load_damage map_set m p q s)
       = foldl (\<lambda>m (x, y, z, d). map_set m x y z d) m
           (fst (db_load_damage log_map_set [] p q s))"
proof -
  have a: "fst (db_load_damage log_map_set [] p q s)
     = (if db_enabled s
        then filter (\<lambda>(x, y, z, d). d \<noteq> 0) (select_xyzw p q (t_block_damage (db s)))
        else [])"
    by (simp add: db_load_damage_def Let_def foldl_skip_zero foldl_log_map_set)
  have b: "\<forall>(x, y, z, d) \<in> set (fst (db_load_damage log_map_set [] p q s)). d \<noteq> 0"
    unfolding a by auto
  have c: "fst (db_load_damage map_set m p q s)
       = foldl (\<lambda>m (x, y, z, d). map_set m x y z d) m
           (fst (db_load_damage log_map_set [] p q s))"
    unfolding a by (simp add: db_load_damage_def Let_def foldl_skip_zero)
  from a b c show ?thesis by blast
qed

theorem load_damage_skips_zero_witness:
  "select_xyzw 0 0 (t_block_damage (db world_1)) = [(1, 2, 3, 4), (1, 2, 4, 0)]
   \<and> fst (db_load_damage log_map_set [] 0 0 world_1) = [(1, 2, 3, 4)]
   \<and> fst (db_load_damage (\<lambda>m x y z d. m((x, y, z) \<mapsto> d)) Map.empty 0 0 world_1) (1, 2, 3) = Some 4
   \<and> fst (db_load_damage (\<lambda>m x y z d. m((x, y, z) \<mapsto> d)) Map.empty 0 0 world_1) (1, 2, 4) = None"
proof -
  note t = load_damage_skips_zero [of 0 0 world_1 "\<lambda>m x y z d. m((x, y, z) \<mapsto> d)" Map.empty]
  have rows: "select_xyzw 0 0 (t_block_damage (db world_1)) = [(1, 2, 3, 4), (1, 2, 4, 0)]"
    by (simp add: select_xyzw_def)
  have "fst (db_load_damage log_map_set [] 0 0 world_1)
     = (if db_enabled world_1
        then filter (\<lambda>(x, y, z, d). d \<noteq> 0) (select_xyzw 0 0 (t_block_damage (db world_1)))
        else [])"
    using t by (rule conjunct1)
  then have a: "fst (db_load_damage log_map_set [] 0 0 world_1) = [(1, 2, 3, 4)]"
    unfolding rows by simp
  have "fst (db_load_damage (\<lambda>m x y z d. m((x, y, z) \<mapsto> d)) Map.empty 0 0 world_1)
       = foldl (\<lambda>m (x, y, z, d). m((x, y, z) \<mapsto> d)) Map.empty
           (fst (db_load_damage log_map_set [] 0 0 world_1))"
    using t by (rule conjunct2 [THEN conjunct2])
  then have b: "fst (db_load_damage (\<lambda>m x y z d. m((x, y, z) \<mapsto> d)) Map.empty 0 0 world_1)
       = [(1, 2, 3) \<mapsto> 4]"
    unfolding a by simp
  have c: "[(1::c_int, 2::c_int, 3::c_int) \<mapsto> 4::c_int] (1, 2, 3) = Some 4"
    and d: "[(1::c_int, 2::c_int, 3::c_int) \<mapsto> 4::c_int] (1, 2, 4) = None"
    by simp_all
  from rows a c d show ?thesis unfolding b by blast
qed

text \<open>
  Claim C10, as amended.  With the database enabled, \<open>db_save_state\<close> first deletes all
  rows of \<open>state\<close> and then inserts one row, unless one of the five floats is a NaN: the
  store binds a NaN as NULL and the \<open>not null\<close> columns reject the row.  So the table then
  holds at most one row.  When no float is a NaN, a following \<open>db_load_state\<close> returns 1
  and yields the saved values, a negative zero being read back as positive zero; when
  one is a NaN, the table is left empty and \<open>db_load_state\<close> returns 0.
\<close>

theorem save_state_then_load:
  assumes "db_enabled s"
  shows "length (t_state (db (db_save_state x y z rx ry flying s))) \<le> 1
       \<and> take 2 (new_events s (db_save_state x y z rx ry flying s))
           = [SqliteExec ''delete from state;'',
              SqlitePrepare ''insert into state (x, y, z, rx, ry, flying) values (?, ?, ?, ?, ?, ?);'']
       \<and> (\<not> (float_is_nan x \<or> float_is_nan y \<or> float_is_nan z \<or> float_is_nan rx
               \<or> float_is_nan ry) \<longrightarrow>
            t_state (db (db_save_state x y z rx ry flying s))
              = [(stored_float x, stored_float y, stored_float z, stored_float rx,
                  stored_float ry, flying)]
            \<and> fst (db_load_state (db_save_state x y z rx ry flying s)) = 1
            \<and> fst (snd (db_load_state (db_save_state x y z rx ry flying s)))
                = Some (stored_float x, stored_float y, stored_float z, stored_float rx,
                        stored_float ry, flying))
       \<and> (float_is_nan x \<or> float_is_nan y \<or> float_is_nan z \<or> float_is_nan rx
             \<or> float_is_nan ry \<longrightarrow>
            t_state (db (db_save_state x y z rx ry flying s)) = []
            \<and> fst (db_load_state (db_save_state x y z rx ry flying s)) = 0
            \<and> fst (snd (db_load_state (db_save_state x y z rx ry flying s))) = None)
       \<and> (\<forall>f. stored_float f = (if f = 0x80000000 then 0 else f))
       \<and> (\<forall>f. float_is_nan f = (0x7F800000 < unat f mod 2 ^ 31))"
  using assms
  by (simp add: db_save_state_def db_load_state_def Let_def delete_from_state_def
      new_events_def stored_float_def float_is_nan_def)

text \<open>
  The patterns used below: 1.0 is \<open>0x3F800000\<close>, 2.5 is \<open>0x40200000\<close>, a quiet NaN is
  \<open>0x7FC00000\<close>, negative zero is \<open>0x80000000\<close>.
\<close>

theorem save_state_then_load_witness:
  "db_enabled world_1
   \<and> \<not> float_is_nan 0x3F800000 \<and> \<not> float_is_nan 0x40200000 \<and> \<not> float_is_nan 0
   \<and> t_state (db (db_save_state 0x3F800000 0x40200000 0 0 0 1
                      (db_save_state 0x40200000 0 0 0 0 0 world_1)))
       = [(0x3F800000, 0x40200000, 0, 0, 0, 1)]
   \<and> fst (db_load_state (db_save_state 0x3F800000 0x40200000 0 0 0 1
                            (db_save_state 0x40200000 0 0 0 0 0 world_1))) = 1
   \<and> fst (snd (db_load_state (db_save_state 0x3F800000 0x40200000 0 0 0 1
                                 (db_save_state 0x40200000 0 0 0 0 0 world_1))))
       = Some (0x3F800000, 0x40200000, 0, 0, 0, 1)
   \<and> float_is_nan 0x7FC00000
   \<and> fst (db_load_state (db_save_state 0x7FC00000 0x40200000 0 0 0 1
                            (db_save_state 0x40200000 0 0 0 0 0 world_1))) = 0"
proof -
  have h: "db_enabled (db_save_state 0x40200000 0 0 0 0 0 world_1)"
    by (simp add: db_save_state_def)
  have n: "\<not> float_is_nan 0x3F800000" "\<not> float_is_nan 0x40200000" "\<not> float_is_nan 0"
    "float_is_nan 0x7FC00000"
    by (simp_all add: float_is_nan_def)
  have st: "stored_float 0x3F800000 = 0x3F800000" "stored_float 0x40200000 = 0x40200000"
    "stored_float 0 = 0"
    by (simp_all add: stored_float_def)
  note t = save_state_then_load [OF h, where x = "0x3F800000" and y = "0x40200000" and z = 0
      and rx = 0 and ry = 0 and flying = 1]
  note u = save_state_then_load [OF h, where x = "0x7FC00000" and y = "0x40200000" and z = 0
      and rx = 0 and ry = 0 and flying = 1]
  from t n st have a: "t_state (db (db_save_state 0x3F800000 0x40200000 0 0 0 1
                      (db_save_state 0x40200000 0 0 0 0 0 world_1)))
       = [(0x3F800000, 0x40200000, 0, 0, 0, 1)]"
    and b: "fst (db_load_state (db_save_state 0x3F800000 0x40200000 0 0 0 1
                            (db_save_state 0x40200000 0 0 0 0 0 world_1))) = 1"
    and c: "fst (snd (db_load_state (db_save_state 0x3F800000 0x40200000 0 0 0 1
                                 (db_save_state 0x40200000 0 0 0 0 0 world_1))))
       = Some (0x3F800000, 0x40200000, 0, 0, 0, 1)"
    by simp_all
  from u n have d: "fst (db_load_state (db_save_state 0x7FC00000 0x40200000 0 0 0 1
                            (db_save_state 0x40200000 0 0 0 0 0 world_1))) = 0"
    by simp
  have e: "db_enabled world_1" by simp
  from e n a b c d show ?thesis by (intro conjI)
qed

text \<open>
  The claim as stated fails in three ways: with the database disabled both functions
  return at once, so nothing is saved and the load returns 0; with a NaN the row is
  rejected and the load returns 0; and a saved negative zero is read back as positive
  zero.
\<close>

theorem save_state_then_load_counterexample:
  "\<not> db_enabled world_off
   \<and> t_state (db (db_save_state 1 2 3 4 5 1 world_off)) = []
   \<and> fst (db_load_state (db_save_state 1 2 3 4 5 1 world_off)) \<noteq> 1
   \<and> fst (snd (db_load_state (db_save_state 1 2 3 4 5 1 world_off))) = None
   \<and> db_enabled world_1
   \<and> fst (db_load_state (db_save_state 0x7FC00000 0 0 0 0 0 world_1)) \<noteq> 1
   \<and> fst (snd (db_load_state (db_save_state 0x80000000 0 0 0 0 0 world_1)))
       \<noteq> Some (0x80000000, 0, 0, 0, 0, 0)"
  by (simp add: db_save_state_def db_load_state_def delete_from_state_def float_is_nan_def
      stored_float_def)

section \<open>The disabled database\<close>

text \<open>
  Claim C6.  With the database disabled, every entry point returns at once: the
  process state, and with it the queue, the store and the log of calls, is unchanged,
  so the queue does not grow and no store call occurs; the functions with a result
  return 0 and write no output, and none fails.
\<close>

theorem disabled_is_noop:
  assumes "\<not> db_enabled s"
  shows "db_insert_block p q x y z w s = s
       \<and> db_insert_light p q x y z w s = s
       \<and> db_insert_block_damage p q x y z w s = s
       \<and> db_trim_block_damage p q s = s
       \<and> db_set_key p q key s = s
       \<and> db_commit s = s
       \<and> db_worker_start path s = s
       \<and> db_worker_stop s = Some s
       \<and> db_close s = Some s
       \<and> db_insert_sign p q x y z face sign_text s = s
       \<and> db_delete_sign x y z face s = s
       \<and> db_delete_signs x y z s = s
       \<and> db_delete_all_signs s = s
       \<and> db_save_state fx fy fz rx ry flying s = s
       \<and> db_load_state s = (0, None, s)
       \<and> db_auth_set username identity_token s = s
       \<and> db_auth_select username s = (0, s)
       \<and> db_auth_select_none s = s
       \<and> db_auth_get username token_length s = (0, None, s)
       \<and> db_auth_get_selected name_length token_length s = (0, None, s)
       \<and> db_load_blocks map_set m p q s = (m, s)
       \<and> db_load_lights map_set m p q s = (m, s)
       \<and> db_load_damage map_set m p q s = (m, s)
       \<and> db_load_signs sign_list_add l p q s = (l, s)
       \<and> db_get_key fails p q s = (0, s)
       \<and> producer c s = s"
proof -
  have enq: "db_insert_block p q x y z w s = s" "db_insert_light p q x y z w s = s"
    "db_insert_block_damage p q x y z w s = s" "db_trim_block_damage p q s = s"
    "db_set_key p q key s = s" "db_commit s = s"
    using assms
    by (simp_all add: db_insert_block_def db_insert_light_def db_insert_block_damage_def
        db_trim_block_damage_def db_set_key_def db_commit_def)
  have wrk: "db_worker_start path s = s" "db_worker_stop s = Some s" "db_close s = Some s"
    using assms by (simp_all add: db_worker_start_def db_worker_stop_def db_close_def)
  have sgn: "db_insert_sign p q x y z face sign_text s = s" "db_delete_sign x y z face s = s"
    "db_delete_signs x y z s = s" "db_delete_all_signs s = s"
    using assms
    by (simp_all add: db_insert_sign_def db_delete_sign_def db_delete_signs_def
        db_delete_all_signs_def)
  have sta: "db_save_state fx fy fz rx ry flying s = s" "db_load_state s = (0, None, s)"
    using assms by (simp_all add: db_save_state_def db_load_state_def)
  have aut: "db_auth_set username identity_token s = s" "db_auth_select username s = (0, s)"
    "db_auth_select_none s = s" "db_auth_get username token_length s = (0, None, s)"
    "db_auth_get_selected name_length token_length s = (0, None, s)"
    using assms
    by (simp_all add: db_auth_set_def db_auth_select_def db_auth_select_none_def
        db_auth_get_def db_auth_get_selected_def)
  have lod: "db_load_blocks map_set m p q s = (m, s)" "db_load_lights map_set m p q s = (m, s)"
    "db_load_damage map_set m p q s = (m, s)" "db_load_signs sign_list_add l p q s = (l, s)"
    "db_get_key fails p q s = (0, s)"
    using assms
    by (simp_all add: db_load_blocks_def db_load_lights_def db_load_damage_def
        db_load_signs_def db_get_key_def)
  have prd: "producer c s = s"
    using assms
    by (cases c)
      (simp_all add: db_insert_block_def db_insert_light_def db_insert_block_damage_def
        db_trim_block_damage_def db_set_key_def db_commit_def)
  show ?thesis
    by (intro conjI) (rule enq wrk sgn sta aut lod prd)+
qed

theorem disabled_is_noop_witness:
  "\<not> db_enabled world_off
   \<and> db_insert_block 0 0 1 2 3 55 world_off = world_off
   \<and> ring (db_insert_block 0 0 1 2 3 55 world_off) = small_ring
   \<and> trace (db_insert_block 0 0 1 2 3 55 world_off) = []
   \<and> db_worker_stop world_off = Some world_off
   \<and> db_get_key False 0 0 world_off = (0, world_off)
   \<and> db_load_state world_off = (0, None, world_off)
   \<and> db_insert_block 0 0 1 2 3 55 (db_disable world_1) = db_disable world_1"
proof -
  have h: "\<not> db_enabled world_off" by simp
  note t = disabled_is_noop [OF h, where p = 0 and q = 0 and x = 1 and y = 2 and z = 3
      and w = 55 and key = 0 and path = None and face = 0 and sign_text = "''hi''" and fx = 0
      and fy = 0 and fz = 0 and rx = 0 and ry = 0 and flying = 0 and username = "''u''"
      and identity_token = "''t''" and token_length = 8 and name_length = 8
      and map_set = log_map_set and m = "[]"
      and sign_list_add = "\<lambda>l x y z face sign_text. l" and l = "()" and fails = False
      and c = Commit]
  have a: "db_insert_block 0 0 1 2 3 55 world_off = world_off"
    using t by simp
  have b: "db_worker_stop world_off = Some world_off"
    using t by simp
  have c: "db_get_key False 0 0 world_off = (0, world_off)"
    using t by simp
  have d: "db_load_state world_off = (0, None, world_off)"
    using t by simp
  have e: "ring world_off = small_ring" "trace world_off = []" by simp_all
  have h': "\<not> db_enabled (db_disable world_1)" by (simp add: db_disable_def)
  have f: "db_insert_block 0 0 1 2 3 55 (db_disable world_1) = db_disable world_1"
    using disabled_is_noop [OF h'] by (rule conjunct1)
  from h b c d e f show ?thesis unfolding a by blast
qed

section \<open>The read mutex\<close>

lemma interleaved_left_done:
  "interleaved owner [] ys zs \<Longrightarrow> zs = by_thread Thread_2 ys"
proof (induction zs arbitrary: owner ys)
  case Nil
  then show ?case by (simp add: by_thread_def)
next
  case (Cons a zs)
  obtain t ev where a: "a = (t, ev)" by (cases a)
  show ?case
  proof (cases t)
    case Thread_1
    with Cons.prems a show ?thesis by simp
  next
    case Thread_2
    with Cons.prems a obtain ys' where ys: "ys = ev # ys'"
      and rest: "interleaved (owner_after owner Thread_2 ev) [] ys' zs"
      by (cases ys) auto
    from Cons.IH [OF rest] a ys Thread_2 show ?thesis by (simp add: by_thread_def)
  qed
qed

lemma interleaved_right_done:
  "interleaved owner xs [] zs \<Longrightarrow> zs = by_thread Thread_1 xs"
proof (induction zs arbitrary: owner xs)
  case Nil
  then show ?case by (simp add: by_thread_def)
next
  case (Cons a zs)
  obtain t ev where a: "a = (t, ev)" by (cases a)
  show ?case
  proof (cases t)
    case Thread_2
    with Cons.prems a show ?thesis by simp
  next
    case Thread_1
    with Cons.prems a obtain xs' where xs: "xs = ev # xs'"
      and rest: "interleaved (owner_after owner Thread_1 ev) xs' [] zs"
      by (cases xs) auto
    from Cons.IH [OF rest] a xs Thread_1 show ?thesis by (simp add: by_thread_def)
  qed
qed

lemma holder_1_runs_first:
  assumes "MtxLock Load_mtx \<notin> set body" and "MtxUnlock Load_mtx \<notin> set body"
    and "ys = [] \<or> hd ys = MtxLock Load_mtx"
    and "interleaved (Some Thread_1) (body @ [MtxUnlock Load_mtx]) ys zs"
  shows "\<exists>zs'. zs = by_thread Thread_1 (body @ [MtxUnlock Load_mtx]) @ zs'
            \<and> interleaved None [] ys zs'"
  using assms
proof (induction body arbitrary: zs)
  case Nil
  show ?case
  proof (cases zs)
    case Nil
    with Nil.prems show ?thesis by simp
  next
    case (Cons a zs')
    obtain t ev where a: "a = (t, ev)" by (cases a)
    show ?thesis
    proof (cases t)
      case Thread_1
      with Nil.prems Cons a show ?thesis
        by (auto simp: by_thread_def can_run_def owner_after_def)
    next
      case Thread_2
      with Nil.prems Cons a show ?thesis
        by (cases ys) (auto simp: can_run_def)
    qed
  qed
next
  case (Cons b bs)
  show ?case
  proof (cases zs)
    case Nil
    with Cons.prems show ?thesis by simp
  next
    case (Cons a zs')
    obtain t ev where a: "a = (t, ev)" by (cases a)
    show ?thesis
    proof (cases t)
      case Thread_1
      with Cons.prems \<open>zs = a # zs'\<close> a
      have ev: "ev = b" and rest: "interleaved (Some Thread_1) (bs @ [MtxUnlock Load_mtx]) ys zs'"
        by (auto simp: can_run_def owner_after_def)
      from Cons.prems have "MtxLock Load_mtx \<notin> set bs" "MtxUnlock Load_mtx \<notin> set bs"
        by simp_all
      from Cons.IH [OF this Cons.prems(3) rest]
      obtain zs'' where "zs' = by_thread Thread_1 (bs @ [MtxUnlock Load_mtx]) @ zs''"
        and "interleaved None [] ys zs''"
        by blast
      with \<open>zs = a # zs'\<close> a Thread_1 ev show ?thesis
        by (simp add: by_thread_def)
    next
      case Thread_2
      with Cons.prems \<open>zs = a # zs'\<close> a show ?thesis
        by (cases ys) (auto simp: can_run_def)
    qed
  qed
qed

lemma holder_2_runs_first:
  assumes "MtxLock Load_mtx \<notin> set body" and "MtxUnlock Load_mtx \<notin> set body"
    and "xs = [] \<or> hd xs = MtxLock Load_mtx"
    and "interleaved (Some Thread_2) xs (body @ [MtxUnlock Load_mtx]) zs"
  shows "\<exists>zs'. zs = by_thread Thread_2 (body @ [MtxUnlock Load_mtx]) @ zs'
            \<and> interleaved None xs [] zs'"
  using assms
proof (induction body arbitrary: zs)
  case Nil
  show ?case
  proof (cases zs)
    case Nil
    with Nil.prems show ?thesis by simp
  next
    case (Cons a zs')
    obtain t ev where a: "a = (t, ev)" by (cases a)
    show ?thesis
    proof (cases t)
      case Thread_2
      with Nil.prems Cons a show ?thesis
        by (auto simp: by_thread_def can_run_def owner_after_def)
    next
      case Thread_1
      with Nil.prems Cons a show ?thesis
        by (cases xs) (auto simp: can_run_def)
    qed
  qed
next
  case (Cons b bs)
  show ?case
  proof (cases zs)
    case Nil
    with Cons.prems show ?thesis by simp
  next
    case (Cons a zs')
    obtain t ev where a: "a = (t, ev)" by (cases a)
    show ?thesis
    proof (cases t)
      case Thread_2
      with Cons.prems \<open>zs = a # zs'\<close> a
      have ev: "ev = b" and rest: "interleaved (Some Thread_2) xs (bs @ [MtxUnlock Load_mtx]) zs'"
        by (auto simp: can_run_def owner_after_def)
      from Cons.prems have "MtxLock Load_mtx \<notin> set bs" "MtxUnlock Load_mtx \<notin> set bs"
        by simp_all
      from Cons.IH [OF this Cons.prems(3) rest]
      obtain zs'' where "zs' = by_thread Thread_2 (bs @ [MtxUnlock Load_mtx]) @ zs''"
        and "interleaved None xs [] zs''"
        by blast
      with \<open>zs = a # zs'\<close> a Thread_2 ev show ?thesis
        by (simp add: by_thread_def)
    next
      case Thread_1
      with Cons.prems \<open>zs = a # zs'\<close> a show ?thesis
        by (cases xs) (auto simp: can_run_def)
    qed
  qed
qed

lemma bracketed_serialised:
  assumes "bracketed xs" and "bracketed ys" and "interleaved None xs ys zs"
  shows "zs = by_thread Thread_1 xs @ by_thread Thread_2 ys
       \<or> zs = by_thread Thread_2 ys @ by_thread Thread_1 xs"
proof (cases "xs = []")
  case True
  with assms(3) have "zs = by_thread Thread_2 ys" by (simp add: interleaved_left_done)
  with True show ?thesis by (simp add: by_thread_def)
next
  case xs: False
  show ?thesis
  proof (cases "ys = []")
    case True
    with assms(3) have "zs = by_thread Thread_1 xs" by (simp add: interleaved_right_done)
    with True show ?thesis by (simp add: by_thread_def)
  next
    case ys: False
    from xs assms(1) obtain bx where bx: "xs = MtxLock Load_mtx # bx @ [MtxUnlock Load_mtx]"
      "MtxLock Load_mtx \<notin> set bx" "MtxUnlock Load_mtx \<notin> set bx"
      by (auto simp: bracketed_def)
    from ys assms(2) obtain by' where by': "ys = MtxLock Load_mtx # by' @ [MtxUnlock Load_mtx]"
      "MtxLock Load_mtx \<notin> set by'" "MtxUnlock Load_mtx \<notin> set by'"
      by (auto simp: bracketed_def)
    from assms(3) xs obtain a zs' where zs: "zs = a # zs'" by (cases zs) auto
    obtain t ev where a: "a = (t, ev)" by (cases a)
    show ?thesis
    proof (cases t)
      case Thread_1
      with assms(3) zs a bx(1)
      have ev: "ev = MtxLock Load_mtx"
        and rest: "interleaved (Some Thread_1) (bx @ [MtxUnlock Load_mtx]) ys zs'"
        by (auto simp: can_run_def owner_after_def)
      have "ys = [] \<or> hd ys = MtxLock Load_mtx" by (simp add: by'(1))
      from holder_1_runs_first [OF bx(2,3) this rest]
      obtain zs'' where z: "zs' = by_thread Thread_1 (bx @ [MtxUnlock Load_mtx]) @ zs''"
        and r: "interleaved None [] ys zs''"
        by blast
      from r have "zs'' = by_thread Thread_2 ys" by (rule interleaved_left_done)
      with z zs a Thread_1 ev bx(1) have "zs = by_thread Thread_1 xs @ by_thread Thread_2 ys"
        by (simp add: by_thread_def)
      then show ?thesis ..
    next
      case Thread_2
      with assms(3) zs a by'(1)
      have ev: "ev = MtxLock Load_mtx"
        and rest: "interleaved (Some Thread_2) xs (by' @ [MtxUnlock Load_mtx]) zs'"
        by (auto simp: can_run_def owner_after_def)
      have "xs = [] \<or> hd xs = MtxLock Load_mtx" by (simp add: bx(1))
      from holder_2_runs_first [OF by'(2,3) this rest]
      obtain zs'' where z: "zs' = by_thread Thread_2 (by' @ [MtxUnlock Load_mtx]) @ zs''"
        and r: "interleaved None xs [] zs''"
        by blast
      from r have "zs'' = by_thread Thread_1 xs" by (rule interleaved_right_done)
      with z zs a Thread_2 ev by'(1) have "zs = by_thread Thread_2 ys @ by_thread Thread_1 xs"
        by (simp add: by_thread_def)
      then show ?thesis ..
    qed
  qed
qed

lemma runs_alone_2:
  "MtxLock Load_mtx \<notin> set body \<Longrightarrow> MtxUnlock Load_mtx \<notin> set body \<Longrightarrow>
     interleaved (Some Thread_2) [] (body @ [MtxUnlock Load_mtx])
       (by_thread Thread_2 (body @ [MtxUnlock Load_mtx]))"
  by (induction body) (auto simp: by_thread_def can_run_def owner_after_def)

lemma runs_first_1:
  "MtxLock Load_mtx \<notin> set body \<Longrightarrow> MtxUnlock Load_mtx \<notin> set body \<Longrightarrow>
     interleaved None [] ys rest \<Longrightarrow>
     interleaved (Some Thread_1) (body @ [MtxUnlock Load_mtx]) ys
       (by_thread Thread_1 (body @ [MtxUnlock Load_mtx]) @ rest)"
  by (induction body) (auto simp: by_thread_def can_run_def owner_after_def)

lemma interleaved_alone_2:
  assumes "bracketed ys"
  shows "interleaved None [] ys (by_thread Thread_2 ys)"
proof (cases "ys = []")
  case True
  then show ?thesis by (simp add: by_thread_def)
next
  case False
  with assms obtain body where b: "ys = MtxLock Load_mtx # body @ [MtxUnlock Load_mtx]"
    "MtxLock Load_mtx \<notin> set body" "MtxUnlock Load_mtx \<notin> set body"
    by (auto simp: bracketed_def)
  from runs_alone_2 [OF b(2,3)] show ?thesis
    by (simp add: b(1) by_thread_def can_run_def owner_after_def)
qed

lemma bracketed_serial_run:
  assumes "bracketed xs" and "bracketed ys"
  shows "interleaved None xs ys (by_thread Thread_1 xs @ by_thread Thread_2 ys)"
proof (cases "xs = []")
  case True
  with interleaved_alone_2 [OF assms(2)] show ?thesis by (simp add: by_thread_def)
next
  case False
  with assms(1) obtain body where b: "xs = MtxLock Load_mtx # body @ [MtxUnlock Load_mtx]"
    "MtxLock Load_mtx \<notin> set body" "MtxUnlock Load_mtx \<notin> set body"
    by (auto simp: bracketed_def)
  from runs_first_1 [OF b(2,3) interleaved_alone_2 [OF assms(2)]] show ?thesis
    by (simp add: b(1) by_thread_def can_run_def owner_after_def)
qed

lemma load_calls_bracketed:
  assumes "\<forall>ev \<in> set (a # b # c # d # evs). ev \<noteq> MtxLock Load_mtx \<and> ev \<noteq> MtxUnlock Load_mtx"
  shows "bracketed (MtxLock Load_mtx # a # b # c # concat (map (\<lambda>row. evs) rows)
                      @ [d, MtxUnlock Load_mtx])"
  unfolding bracketed_def
  using assms
  by (intro disjI2 exI [of _ "a # b # c # concat (map (\<lambda>row. evs) rows) @ [d]"]) auto

lemma chunk_load_calls_bracketed: "bracketed (chunk_load_calls k p q s)"
proof (cases "db_enabled s")
  case False
  then show ?thesis
    by (cases k)
      (simp_all add: chunk_load_calls_def db_load_blocks_def db_load_lights_def
        db_load_damage_def new_events_def bracketed_def)
next
  case True
  then show ?thesis
    by (cases k)
      (auto simp: chunk_load_calls_def db_load_blocks_def db_load_lights_def
        db_load_damage_def new_events_def Let_def intro!: load_calls_bracketed)
qed

lemma chunk_load_calls_any_destination:
  "new_events s (snd (db_load_blocks map_set m p q s)) = chunk_load_calls Load_blocks p q s"
  "new_events s (snd (db_load_lights map_set m p q s)) = chunk_load_calls Load_lights p q s"
  "new_events s (snd (db_load_damage map_set m p q s)) = chunk_load_calls Load_damage p q s"
  by (simp_all add: chunk_load_calls_def db_load_blocks_def db_load_lights_def
      db_load_damage_def new_events_def Let_def)

lemma reads_guarded_held_append:
  "\<forall>ev \<in> set es. ev \<noteq> MtxLock Load_mtx \<and> ev \<noteq> MtxUnlock Load_mtx \<Longrightarrow>
     reads_guarded True (es @ rest) = reads_guarded True rest"
  by (induction es) simp_all

lemma reads_guarded_rows:
  "\<forall>ev \<in> set evs. ev \<noteq> MtxLock Load_mtx \<and> ev \<noteq> MtxUnlock Load_mtx \<Longrightarrow>
     reads_guarded True (concat (map (\<lambda>row. evs) rows) @ rest) = reads_guarded True rest"
  by (rule reads_guarded_held_append) auto

text \<open>
  Claim C8, as amended.  Every store call of \<open>db_load_blocks\<close>, \<open>db_load_lights\<close> and
  \<open>db_load_damage\<close> is made while the calling thread holds \<open>load_mtx\<close>: with the
  database enabled, the function locks it before its first store call and unlocks it
  after the last.  So two concurrent calls of these loads never interleave on the
  shared store handle: in every execution of two threads that each make one of these
  calls, one thread makes all its calls before the other makes its first, and such
  executions exist.
\<close>

theorem map_loads_hold_load_mtx:
  "reads_guarded False (new_events s (snd (db_load_blocks map_set m p q s)))
   \<and> reads_guarded False (new_events s (snd (db_load_lights map_set m p q s)))
   \<and> reads_guarded False (new_events s (snd (db_load_damage map_set m p q s)))
   \<and> (db_enabled s \<longrightarrow>
        hd (new_events s (snd (db_load_blocks map_set m p q s))) = MtxLock Load_mtx
        \<and> last (new_events s (snd (db_load_blocks map_set m p q s))) = MtxUnlock Load_mtx
        \<and> hd (new_events s (snd (db_load_lights map_set m p q s))) = MtxLock Load_mtx
        \<and> last (new_events s (snd (db_load_lights map_set m p q s))) = MtxUnlock Load_mtx
        \<and> hd (new_events s (snd (db_load_damage map_set m p q s))) = MtxLock Load_mtx
        \<and> last (new_events s (snd (db_load_damage map_set m p q s))) = MtxUnlock Load_mtx)
   \<and> new_events s (snd (db_load_blocks map_set m p q s)) = chunk_load_calls Load_blocks p q s
   \<and> new_events s (snd (db_load_lights map_set m p q s)) = chunk_load_calls Load_lights p q s
   \<and> new_events s (snd (db_load_damage map_set m p q s)) = chunk_load_calls Load_damage p q s
   \<and> interleaved None (chunk_load_calls k1 p1 q1 s1) (chunk_load_calls k2 p2 q2 s2)
         (by_thread Thread_1 (chunk_load_calls k1 p1 q1 s1)
            @ by_thread Thread_2 (chunk_load_calls k2 p2 q2 s2))
   \<and> (\<forall>zs. interleaved None (chunk_load_calls k1 p1 q1 s1) (chunk_load_calls k2 p2 q2 s2) zs
          \<longrightarrow>
            zs = by_thread Thread_1 (chunk_load_calls k1 p1 q1 s1)
                   @ by_thread Thread_2 (chunk_load_calls k2 p2 q2 s2)
            \<or> zs = by_thread Thread_2 (chunk_load_calls k2 p2 q2 s2)
                   @ by_thread Thread_1 (chunk_load_calls k1 p1 q1 s1))"
proof -
  have b: "reads_guarded False (new_events s (snd (db_load_blocks map_set m p q s)))"
    by (simp add: db_load_blocks_def Let_def new_events_def reads_guarded_rows)
  have l: "reads_guarded False (new_events s (snd (db_load_lights map_set m p q s)))"
    by (simp add: db_load_lights_def Let_def new_events_def reads_guarded_rows)
  have d: "reads_guarded False (new_events s (snd (db_load_damage map_set m p q s)))"
    by (simp add: db_load_damage_def Let_def new_events_def reads_guarded_rows)
  have e: "hd (new_events s (snd (db_load_blocks map_set m p q s))) = MtxLock Load_mtx"
    "last (new_events s (snd (db_load_blocks map_set m p q s))) = MtxUnlock Load_mtx"
    "hd (new_events s (snd (db_load_lights map_set m p q s))) = MtxLock Load_mtx"
    "last (new_events s (snd (db_load_lights map_set m p q s))) = MtxUnlock Load_mtx"
    "hd (new_events s (snd (db_load_damage map_set m p q s))) = MtxLock Load_mtx"
    "last (new_events s (snd (db_load_damage map_set m p q s))) = MtxUnlock Load_mtx"
    if "db_enabled s"
    using that
    by (simp_all add: db_load_blocks_def db_load_lights_def db_load_damage_def Let_def
        new_events_def)
  note c = chunk_load_calls_any_destination [of s map_set m p q]
  have f: "interleaved None (chunk_load_calls k1 p1 q1 s1) (chunk_load_calls k2 p2 q2 s2)
         (by_thread Thread_1 (chunk_load_calls k1 p1 q1 s1)
            @ by_thread Thread_2 (chunk_load_calls k2 p2 q2 s2))"
    by (intro bracketed_serial_run chunk_load_calls_bracketed)
  have g: "zs = by_thread Thread_1 (chunk_load_calls k1 p1 q1 s1)
                   @ by_thread Thread_2 (chunk_load_calls k2 p2 q2 s2)
            \<or> zs = by_thread Thread_2 (chunk_load_calls k2 p2 q2 s2)
                   @ by_thread Thread_1 (chunk_load_calls k1 p1 q1 s1)"
    if "interleaved None (chunk_load_calls k1 p1 q1 s1) (chunk_load_calls k2 p2 q2 s2) zs" for zs
    using chunk_load_calls_bracketed chunk_load_calls_bracketed that
    by (rule bracketed_serialised)
  have e': "db_enabled s \<longrightarrow>
        hd (new_events s (snd (db_load_blocks map_set m p q s))) = MtxLock Load_mtx
        \<and> last (new_events s (snd (db_load_blocks map_set m p q s))) = MtxUnlock Load_mtx
        \<and> hd (new_events s (snd (db_load_lights map_set m p q s))) = MtxLock Load_mtx
        \<and> last (new_events s (snd (db_load_lights map_set m p q s))) = MtxUnlock Load_mtx
        \<and> hd (new_events s (snd (db_load_damage map_set m p q s))) = MtxLock Load_mtx
        \<and> last (new_events s (snd (db_load_damage map_set m p q s))) = MtxUnlock Load_mtx"
    using e by blast
  have g': "\<forall>zs. interleaved None (chunk_load_calls k1 p1 q1 s1) (chunk_load_calls k2 p2 q2 s2) zs
          \<longrightarrow>
            zs = by_thread Thread_1 (chunk_load_calls k1 p1 q1 s1)
                   @ by_thread Thread_2 (chunk_load_calls k2 p2 q2 s2)
            \<or> zs = by_thread Thread_2 (chunk_load_calls k2 p2 q2 s2)
                   @ by_thread Thread_1 (chunk_load_calls k1 p1 q1 s1)"
    using g by blast
  from b l d e' c f g' show ?thesis by (intro conjI)
qed

theorem map_loads_hold_load_mtx_witness:
  "db_enabled world_1
   \<and> new_events world_1 (snd (db_load_damage log_map_set [] 0 1 world_1)) =
       [MtxLock Load_mtx,
        SqliteReset load_block_damage_stmt,
        SqliteBindInt load_block_damage_stmt 1 0,
        SqliteBindInt load_block_damage_stmt 2 1,
        SqliteStep load_block_damage_stmt,
        SqliteColumn load_block_damage_stmt 0,
        SqliteColumn load_block_damage_stmt 1,
        SqliteColumn load_block_damage_stmt 2,
        SqliteColumn load_block_damage_stmt 3,
        SqliteStep load_block_damage_stmt,
        MtxUnlock Load_mtx]
   \<and> reads_guarded False (new_events world_1 (snd (db_load_damage log_map_set [] 0 1 world_1)))
   \<and> reads_guarded False (new_events world_1 (snd (db_load_blocks log_map_set [] 0 0 world_1)))
   \<and> reads_guarded False (new_events world_1 (snd (db_load_lights log_map_set [] 0 0 world_1)))
   \<and> hd (new_events world_1 (snd (db_load_lights log_map_set [] 0 0 world_1))) = MtxLock Load_mtx
   \<and> last (new_events world_1 (snd (db_load_lights log_map_set [] 0 0 world_1))) = MtxUnlock Load_mtx
   \<and> chunk_load_calls Load_lights 0 0 world_1 =
       [MtxLock Load_mtx,
        SqliteReset load_lights_stmt,
        SqliteBindInt load_lights_stmt 1 0,
        SqliteBindInt load_lights_stmt 2 0,
        SqliteStep load_lights_stmt,
        MtxUnlock Load_mtx]
   \<and> new_events world_1 (snd (db_load_lights log_map_set [] 0 0 world_1)) =
       chunk_load_calls Load_lights 0 0 world_1
   \<and> interleaved None (chunk_load_calls Load_damage 0 1 world_1) (chunk_load_calls Load_lights 0 0 world_1)
        (by_thread Thread_2 (chunk_load_calls Load_lights 0 0 world_1)
           @ by_thread Thread_1 (chunk_load_calls Load_damage 0 1 world_1))
   \<and> interleaved None (chunk_load_calls Load_damage 0 1 world_1) (chunk_load_calls Load_lights 0 0 world_1)
        (by_thread Thread_1 (chunk_load_calls Load_damage 0 1 world_1)
           @ by_thread Thread_2 (chunk_load_calls Load_lights 0 0 world_1))
   \<and> \<not> interleaved None (chunk_load_calls Load_damage 0 1 world_1) (chunk_load_calls Load_lights 0 0 world_1)
        ((Thread_1, MtxLock Load_mtx)
         # (Thread_1, SqliteReset load_block_damage_stmt)
         # (Thread_2, MtxLock Load_mtx)
         # by_thread Thread_2 (tl (chunk_load_calls Load_lights 0 0 world_1))
         @ by_thread Thread_1 (drop 2 (chunk_load_calls Load_damage 0 1 world_1)))"
proof -
  have h: "db_enabled world_1" by simp
  have ev: "new_events world_1 (snd (db_load_damage log_map_set [] 0 1 world_1)) =
       [MtxLock Load_mtx,
        SqliteReset load_block_damage_stmt,
        SqliteBindInt load_block_damage_stmt 1 0,
        SqliteBindInt load_block_damage_stmt 2 1,
        SqliteStep load_block_damage_stmt,
        SqliteColumn load_block_damage_stmt 0,
        SqliteColumn load_block_damage_stmt 1,
        SqliteColumn load_block_damage_stmt 2,
        SqliteColumn load_block_damage_stmt 3,
        SqliteStep load_block_damage_stmt,
        MtxUnlock Load_mtx]"
    by (simp add: db_load_damage_def new_events_def select_xyzw_def)
  have li: "chunk_load_calls Load_lights 0 0 world_1 =
       [MtxLock Load_mtx,
        SqliteReset load_lights_stmt,
        SqliteBindInt load_lights_stmt 1 0,
        SqliteBindInt load_lights_stmt 2 0,
        SqliteStep load_lights_stmt,
        MtxUnlock Load_mtx]"
    by (simp add: chunk_load_calls_def db_load_lights_def new_events_def select_xyzw_def)
  have da: "chunk_load_calls Load_damage 0 1 world_1 =
       [MtxLock Load_mtx,
        SqliteReset load_block_damage_stmt,
        SqliteBindInt load_block_damage_stmt 1 0,
        SqliteBindInt load_block_damage_stmt 2 1,
        SqliteStep load_block_damage_stmt,
        SqliteColumn load_block_damage_stmt 0,
        SqliteColumn load_block_damage_stmt 1,
        SqliteColumn load_block_damage_stmt 2,
        SqliteColumn load_block_damage_stmt 3,
        SqliteStep load_block_damage_stmt,
        MtxUnlock Load_mtx]"
    by (simp add: chunk_load_calls_def db_load_damage_def new_events_def select_xyzw_def)
  note t1 = map_loads_hold_load_mtx [where s = world_1 and map_set = log_map_set and m = "[]"
      and p = 0 and q = 1 and ?k1.0 = Load_damage and ?p1.0 = 0 and ?q1.0 = 1 and ?s1.0 = world_1
      and ?k2.0 = Load_lights and ?p2.0 = 0 and ?q2.0 = 0 and ?s2.0 = world_1]
  note t0 = map_loads_hold_load_mtx [where s = world_1 and map_set = log_map_set and m = "[]"
      and p = 0 and q = 0 and ?k1.0 = Load_damage and ?p1.0 = 0 and ?q1.0 = 1 and ?s1.0 = world_1
      and ?k2.0 = Load_lights and ?p2.0 = 0 and ?q2.0 = 0 and ?s2.0 = world_1]
  have a: "reads_guarded False (new_events world_1 (snd (db_load_damage log_map_set [] 0 1 world_1)))"
    using t1 by (rule conjunct2 [THEN conjunct2, THEN conjunct1])
  have b: "reads_guarded False (new_events world_1 (snd (db_load_blocks log_map_set [] 0 0 world_1)))"
    using t0 by (rule conjunct1)
  have c: "reads_guarded False (new_events world_1 (snd (db_load_lights log_map_set [] 0 0 world_1)))"
    using t0 by (rule conjunct2 [THEN conjunct1])
  have hl: "hd (new_events world_1 (snd (db_load_lights log_map_set [] 0 0 world_1))) = MtxLock Load_mtx
     \<and> last (new_events world_1 (snd (db_load_lights log_map_set [] 0 0 world_1))) = MtxUnlock Load_mtx"
    using t0 [THEN conjunct2, THEN conjunct2, THEN conjunct2, THEN conjunct1] h by blast
  have eq: "new_events world_1 (snd (db_load_lights log_map_set [] 0 0 world_1)) =
       chunk_load_calls Load_lights 0 0 world_1"
    using t0 by (rule conjunct2 [THEN conjunct2, THEN conjunct2, THEN conjunct2, THEN conjunct2,
          THEN conjunct1])
  have s21: "interleaved None (chunk_load_calls Load_damage 0 1 world_1) (chunk_load_calls Load_lights 0 0 world_1)
        (by_thread Thread_2 (chunk_load_calls Load_lights 0 0 world_1)
           @ by_thread Thread_1 (chunk_load_calls Load_damage 0 1 world_1))"
    unfolding li da by (simp add: by_thread_def can_run_def owner_after_def)
  have s12: "interleaved None (chunk_load_calls Load_damage 0 1 world_1) (chunk_load_calls Load_lights 0 0 world_1)
        (by_thread Thread_1 (chunk_load_calls Load_damage 0 1 world_1)
           @ by_thread Thread_2 (chunk_load_calls Load_lights 0 0 world_1))"
    using t0 by (rule conjunct2 [THEN conjunct2, THEN conjunct2, THEN conjunct2, THEN conjunct2,
          THEN conjunct2, THEN conjunct2, THEN conjunct1])
  have all: "\<forall>zs. interleaved None (chunk_load_calls Load_damage 0 1 world_1)
                 (chunk_load_calls Load_lights 0 0 world_1) zs
          \<longrightarrow>
            zs = by_thread Thread_1 (chunk_load_calls Load_damage 0 1 world_1)
                   @ by_thread Thread_2 (chunk_load_calls Load_lights 0 0 world_1)
            \<or> zs = by_thread Thread_2 (chunk_load_calls Load_lights 0 0 world_1)
                   @ by_thread Thread_1 (chunk_load_calls Load_damage 0 1 world_1)"
    using t0 by (rule conjunct2 [THEN conjunct2, THEN conjunct2, THEN conjunct2, THEN conjunct2,
          THEN conjunct2, THEN conjunct2, THEN conjunct2])
  have ne: "(Thread_1, MtxLock Load_mtx)
         # (Thread_1, SqliteReset load_block_damage_stmt)
         # (Thread_2, MtxLock Load_mtx)
         # by_thread Thread_2 (tl (chunk_load_calls Load_lights 0 0 world_1))
         @ by_thread Thread_1 (drop 2 (chunk_load_calls Load_damage 0 1 world_1))
       \<noteq> by_thread Thread_1 (chunk_load_calls Load_damage 0 1 world_1)
                   @ by_thread Thread_2 (chunk_load_calls Load_lights 0 0 world_1)"
       "(Thread_1, MtxLock Load_mtx)
         # (Thread_1, SqliteReset load_block_damage_stmt)
         # (Thread_2, MtxLock Load_mtx)
         # by_thread Thread_2 (tl (chunk_load_calls Load_lights 0 0 world_1))
         @ by_thread Thread_1 (drop 2 (chunk_load_calls Load_damage 0 1 world_1))
       \<noteq> by_thread Thread_2 (chunk_load_calls Load_lights 0 0 world_1)
                   @ by_thread Thread_1 (chunk_load_calls Load_damage 0 1 world_1)"
    unfolding li da by (simp_all add: by_thread_def)
  have no: "\<not> interleaved None (chunk_load_calls Load_damage 0 1 world_1) (chunk_load_calls Load_lights 0 0 world_1)
        ((Thread_1, MtxLock Load_mtx)
         # (Thread_1, SqliteReset load_block_damage_stmt)
         # (Thread_2, MtxLock Load_mtx)
         # by_thread Thread_2 (tl (chunk_load_calls Load_lights 0 0 world_1))
         @ by_thread Thread_1 (drop 2 (chunk_load_calls Load_damage 0 1 world_1)))"
    using all ne by blast
  from h ev a b c hl li eq s21 s12 no show ?thesis by (intro conjI) (simp_all only: simp_thms)
qed

text \<open>
  \<open>db_load_signs\<close> and \<open>db_get_key\<close> take no mutex: their store calls are made with
  \<open>load_mtx\<close> not held, and the calls of two threads that each run \<open>db_get_key\<close> (or each
  \<open>db_load_signs\<close>) can alternate one by one.
\<close>

theorem unguarded_reads_counterexample:
  "\<not> reads_guarded False
       (new_events world_1 (snd (db_load_signs (\<lambda>l x y z face sign_text. l) () 0 0 world_1)))
   \<and> \<not> reads_guarded False (new_events world_1 (snd (db_get_key False 0 0 world_1)))
   \<and> new_events world_1 (snd (db_get_key False 0 0 world_1)) =
       [SqliteReset get_key_stmt,
        SqliteBindInt get_key_stmt 1 0,
        SqliteBindInt get_key_stmt 2 0,
        SqliteStep get_key_stmt,
        SqliteColumn get_key_stmt 0]
   \<and> interleaved None
        (new_events world_1 (snd (db_get_key False 0 0 world_1)))
        (new_events world_1 (snd (db_get_key False 0 0 world_1)))
        [(Thread_1, SqliteReset get_key_stmt),
         (Thread_2, SqliteReset get_key_stmt),
         (Thread_1, SqliteBindInt get_key_stmt 1 0),
         (Thread_2, SqliteBindInt get_key_stmt 1 0),
         (Thread_1, SqliteBindInt get_key_stmt 2 0),
         (Thread_2, SqliteBindInt get_key_stmt 2 0),
         (Thread_1, SqliteStep get_key_stmt),
         (Thread_2, SqliteStep get_key_stmt),
         (Thread_1, SqliteColumn get_key_stmt 0),
         (Thread_2, SqliteColumn get_key_stmt 0)]
   \<and> [(Thread_1, SqliteReset get_key_stmt),
         (Thread_2, SqliteReset get_key_stmt),
         (Thread_1, SqliteBindInt get_key_stmt 1 0),
         (Thread_2, SqliteBindInt get_key_stmt 1 0),
         (Thread_1, SqliteBindInt get_key_stmt 2 0),
         (Thread_2, SqliteBindInt get_key_stmt 2 0),
         (Thread_1, SqliteStep get_key_stmt),
         (Thread_2, SqliteStep get_key_stmt),
         (Thread_1, SqliteColumn get_key_stmt 0),
         (Thread_2, SqliteColumn get_key_stmt 0)]
       \<noteq> by_thread Thread_1 (new_events world_1 (snd (db_get_key False 0 0 world_1)))
           @ by_thread Thread_2 (new_events world_1 (snd (db_get_key False 0 0 world_1)))
   \<and> [(Thread_1, SqliteReset get_key_stmt),
         (Thread_2, SqliteReset get_key_stmt),
         (Thread_1, SqliteBindInt get_key_stmt 1 0),
         (Thread_2, SqliteBindInt get_key_stmt 1 0),
         (Thread_1, SqliteBindInt get_key_stmt 2 0),
         (Thread_2, SqliteBindInt get_key_stmt 2 0),
         (Thread_1, SqliteStep get_key_stmt),
         (Thread_2, SqliteStep get_key_stmt),
         (Thread_1, SqliteColumn get_key_stmt 0),
         (Thread_2, SqliteColumn get_key_stmt 0)]
       \<noteq> by_thread Thread_2 (new_events world_1 (snd (db_get_key False 0 0 world_1)))
           @ by_thread Thread_1 (new_events world_1 (snd (db_get_key False 0 0 world_1)))
   \<and> interleaved None
        (take 2 (new_events world_1 (snd (db_load_signs (\<lambda>l x y z face sign_text. l) () 0 0 world_1))))
        (take 2 (new_events world_1 (snd (db_load_signs (\<lambda>l x y z face sign_text. l) () 0 0 world_1))))
        [(Thread_1, SqliteReset load_signs_stmt),
         (Thread_2, SqliteReset load_signs_stmt),
         (Thread_1, SqliteBindInt load_signs_stmt 1 0),
         (Thread_2, SqliteBindInt load_signs_stmt 1 0)]"
  by (simp add: db_load_signs_def db_get_key_def new_events_def select_signs_def
      step_get_key_def select_key_def by_thread_def can_run_def owner_after_def)

section \<open>Producers and the worker: order of application\<close>

lemma ring_puts_append [simp]: "ring_puts (es @ fs) = ring_puts es @ ring_puts fs"
  by (induction es rule: ring_puts.induct) simp_all

lemma ring_gets_append [simp]: "ring_gets (es @ fs) = ring_gets es @ ring_gets fs"
  by (induction es rule: ring_gets.induct) simp_all

lemmas dispatch_defs = dispatch_def db_commit'_def db_insert_block'_def db_insert_block_damage'_def
        db_block_damage_trim'_def db_insert_light'_def db_set_key'_def

lemma dispatch_ring [simp]: "ring (dispatch e s) = ring s"
  by (cases "e_type e") (simp_all add: dispatch_defs)

lemma dispatch_thrd [simp]: "thrd (dispatch e s) = thrd s"
  by (cases "e_type e") (simp_all add: dispatch_defs)

lemma dispatch_db_enabled [simp]: "db_enabled (dispatch e s) = db_enabled s"
  by (cases "e_type e") (simp_all add: dispatch_defs)

text \<open>The code's \<open>dispatch\<close> does to the store what the spec prescribes for the Command.\<close>

lemma dispatch_db: "db (dispatch e s) = command_effect e (db s)"
  by (cases "e_type e") (simp_all add: dispatch_defs command_effect_def)

lemma dispatch_trace: "trace (dispatch e s) = trace s @ command_store_calls e"
  by (cases "e_type e") (simp_all add: dispatch_defs command_store_calls_def execute_6_def)

lemma command_store_calls_only [simp]:
  "filter is_store_call (command_store_calls e) = command_store_calls e"
  "ring_puts (command_store_calls e) = []"
  "ring_gets (command_store_calls e) = []"
  by (cases "e_type e"; simp add: command_store_calls_def execute_6_def)+

lemma producer_enabled:
  "db_enabled s \<Longrightarrow>
     producer c s = emit [MtxLock Mtx, RingPut (call_entry c), CndSignal, MtxUnlock Mtx]
                      (s\<lparr>ring := ring_put (ring s) (call_entry c)\<rparr>)"
  by (cases c)
    (simp_all add: db_insert_block_def db_insert_light_def db_insert_block_damage_def
      db_trim_block_damage_def db_set_key_def db_commit_def db_worker_stop_enqueue_def
      ring_put_block_def ring_put_light_def ring_put_block_damage_def
      ring_put_block_damage_trim_def ring_put_key_def ring_put_commit_def ring_put_exit_def)

lemma producer_disabled: "\<not> db_enabled s \<Longrightarrow> producer c s = s"
  by (cases c)
    (simp_all add: db_insert_block_def db_insert_light_def db_insert_block_damage_def
      db_trim_block_damage_def db_set_key_def db_commit_def)

lemma progressD:
  assumes "progress s s' es ap"
  shows "trace s' = trace s @ es" and "ring_wf (ring s')"
    and "ring_gets es @ ring_pending (ring s') = ring_pending (ring s) @ ring_puts es"
    and "held s @ ring_gets es = ap @ held s'"
    and "db s' = foldl (\<lambda>st e. command_effect e st) (db s) ap"
    and "filter is_store_call es = concat (map command_store_calls ap)"
    and "db_enabled s' = db_enabled s"
  using assms by (simp_all add: progress_def)

lemma progress_refl: "ring_wf (ring s) \<Longrightarrow> progress s s (new_events s s) []"
  by (simp add: progress_def new_events_def)

lemma progress_trans:
  assumes "progress s s1 (new_events s s1) ap" and "progress s1 s2 (new_events s1 s2) ap'"
  shows "progress s s2 (new_events s s2) (ap @ ap')"
proof -
  let ?es = "new_events s s1" and ?es' = "new_events s1 s2"
  note a = progressD [OF assms(1)] and b = progressD [OF assms(2)]
  have t: "trace s2 = trace s @ ?es @ ?es'" using a(1) b(1) by (metis append_assoc)
  then have ev: "new_events s s2 = ?es @ ?es'" by (rule new_events_append)
  have d: "db s2 = foldl (\<lambda>st e. command_effect e st) (db s) (ap @ ap')"
    by (simp add: b(5) a(5))
  have c: "filter is_store_call (?es @ ?es') = concat (map command_store_calls (ap @ ap'))"
    by (simp add: a(6) b(6))
  have "ring_gets (?es @ ?es') @ ring_pending (ring s2)
      = ring_gets ?es @ (ring_gets ?es' @ ring_pending (ring s2))" by simp
  also have "\<dots> = (ring_gets ?es @ ring_pending (ring s1)) @ ring_puts ?es'"
    by (simp only: b(3) append_assoc)
  also have "\<dots> = ring_pending (ring s) @ ring_puts (?es @ ?es')"
    by (simp only: a(3) append_assoc ring_puts_append)
  finally have g: "ring_gets (?es @ ?es') @ ring_pending (ring s2)
      = ring_pending (ring s) @ ring_puts (?es @ ?es')" .
  have "held s @ ring_gets (?es @ ?es') = (held s @ ring_gets ?es) @ ring_gets ?es'" by simp
  also have "\<dots> = ap @ (held s1 @ ring_gets ?es')"
    by (simp only: a(4) append_assoc)
  also have "\<dots> = (ap @ ap') @ held s2"
    by (simp only: b(4) append_assoc)
  finally have h: "held s @ ring_gets (?es @ ?es') = (ap @ ap') @ held s2" .
  have e: "db_enabled s2 = db_enabled s" by (simp add: a(7) b(7))
  from t b(2) g h d c e show ?thesis
    unfolding progress_def ev by (intro conjI)
qed

lemma producer_progress:
  assumes "ring_wf (ring s)"
  shows "progress s (producer c s) (new_events s (producer c s)) []"
    and "ring_puts (new_events s (producer c s)) = (if db_enabled s then [call_entry c] else [])"
    and "thrd (producer c s) = thrd s"
proof -
  show "progress s (producer c s) (new_events s (producer c s)) []"
  proof (cases "db_enabled s")
    case True
    then show ?thesis
      using assms
      by (simp add: producer_enabled progress_def held_def ring_put_wf ring_put_pending new_events_def)
  next
    case False
    then show ?thesis
      using assms by (simp add: producer_disabled progress_def new_events_def)
  qed
  show "ring_puts (new_events s (producer c s)) = (if db_enabled s then [call_entry c] else [])"
    by (cases "db_enabled s") (simp_all add: producer_enabled producer_disabled new_events_def)
  show "thrd (producer c s) = thrd s"
    by (cases "db_enabled s") (simp_all add: producer_enabled producer_disabled)
qed

text \<open>One transition of the worker dispatches the entry it holds, if it holds one.\<close>

lemma worker_progress:
  assumes "ring_wf (ring s)"
  shows "progress s (db_worker_run_step s) (new_events s (db_worker_run_step s)) (held s)"
    and "ring_puts (new_events s (db_worker_run_step s)) = []"
proof -
  have "progress s (db_worker_run_step s) (new_events s (db_worker_run_step s)) (held s)
      \<and> ring_puts (new_events s (db_worker_run_step s)) = []"
  proof (cases "thrd s")
    case NOT_STARTED
    with assms show ?thesis
      by (simp add: db_worker_run_step_def new_events_def progress_def held_def)
  next
    case STOPPED
    with assms show ?thesis
      by (simp add: db_worker_run_step_def new_events_def progress_def held_def)
  next
    case WAITING
    show ?thesis
    proof (cases "ring_get (ring s)")
      case None
      with WAITING assms show ?thesis
        by (simp add: db_worker_run_step_def new_events_def progress_def held_def)
    next
      case (Some a)
      then obtain e r' where get: "ring_get (ring s) = Some (e, r')" by (cases a) auto
      from assms get have "ring_wf r'" "ring_pending (ring s) = e # ring_pending r'"
        by (auto intro: ring_get_wf ring_get_pending)
      with WAITING get show ?thesis
        by (simp add: db_worker_run_step_def progress_def held_def new_events_def)
    qed
  next
    case (DRAINING e)
    with assms show ?thesis
      by (simp add: db_worker_run_step_def progress_def held_def new_events_def
          dispatch_trace dispatch_db)
  qed
  then show "progress s (db_worker_run_step s) (new_events s (db_worker_run_step s)) (held s)"
    and "ring_puts (new_events s (db_worker_run_step s)) = []"
    by simp_all
qed

lemma worker_exit_inv:
  assumes "exit_inv s ap"
  shows "exit_inv (db_worker_run_step s) (ap @ held s)"
proof (cases "thrd s")
  case NOT_STARTED
  with assms show ?thesis by (simp add: exit_inv_def)
next
  case STOPPED
  with assms show ?thesis by (simp add: db_worker_run_step_def held_def)
next
  case WAITING
  with assms show ?thesis
    by (cases "ring_get (ring s)") (auto simp: db_worker_run_step_def held_def exit_inv_def)
next
  case (DRAINING e)
  with assms show ?thesis
    by (auto simp: db_worker_run_step_def held_def exit_inv_def)
qed

lemma calls_append: "calls (as @ bs) = calls as @ calls bs"
  by (induction as rule: calls.induct) simp_all

lemma run_append: "run (as @ bs) s = run bs (run as s)"
  by (induction as arbitrary: s) simp_all

text \<open>
  Every interleaving keeps the queue, the store and the log in step with the Commands
  dispatched so far.
\<close>

lemma step_progress:
  assumes "ring_wf (ring s)" and "exit_inv s ap0"
  shows "\<exists>ap. progress s (step a s) (new_events s (step a s)) ap
       \<and> exit_inv (step a s) (ap0 @ ap)
       \<and> ring_puts (new_events s (step a s))
           = (if db_enabled s then map call_entry (calls [a]) else [])"
proof (cases a)
  case (Producer c)
  have "exit_inv (producer c s) (ap0 @ [])"
    using assms(2) producer_progress(3) [OF assms(1), of c] by (simp add: exit_inv_def)
  with Producer producer_progress(1,2) [OF assms(1), of c] show ?thesis
    by (intro exI [of _ "[]"]) simp
next
  case Worker
  with worker_progress [OF assms(1)] worker_exit_inv [OF assms(2)] show ?thesis
    by (intro exI [of _ "held s"]) simp
qed

lemma run_progress:
  assumes "ring_wf (ring s)" and "exit_inv s ap0"
  shows "\<exists>ap. progress s (run sched s) (new_events s (run sched s)) ap
       \<and> exit_inv (run sched s) (ap0 @ ap)
       \<and> ring_puts (new_events s (run sched s))
           = (if db_enabled s then map call_entry (calls sched) else [])"
  using assms
proof (induction sched arbitrary: s ap0)
  case Nil
  then show ?case
    by (intro exI [of _ "[]"]) (simp add: progress_refl, simp add: new_events_def)
next
  case (Cons a as)
  let ?s1 = "step a s"
  from step_progress [OF Cons.prems, of a]
  obtain ap1 where r1: "progress s ?s1 (new_events s ?s1) ap1"
    and i1: "exit_inv ?s1 (ap0 @ ap1)"
    and p1: "ring_puts (new_events s ?s1) = (if db_enabled s then map call_entry (calls [a]) else [])"
    by blast
  note d1 = progressD [OF r1]
  from Cons.IH [OF d1(2) i1]
  obtain ap2 where r2: "progress ?s1 (run as ?s1) (new_events ?s1 (run as ?s1)) ap2"
    and i2: "exit_inv (run as ?s1) ((ap0 @ ap1) @ ap2)"
    and p2: "ring_puts (new_events ?s1 (run as ?s1))
           = (if db_enabled ?s1 then map call_entry (calls as) else [])"
    by blast
  note d2 = progressD [OF r2]
  from progress_trans [OF r1 r2]
  have r: "progress s (run as ?s1) (new_events s (run as ?s1)) (ap1 @ ap2)" .
  have "trace (run as ?s1) = trace s @ new_events s ?s1 @ new_events ?s1 (run as ?s1)"
    using d1(1) d2(1) by (metis append_assoc)
  then have ev: "new_events s (run as ?s1) = new_events s ?s1 @ new_events ?s1 (run as ?s1)"
    by (rule new_events_append)
  have c: "calls (a # as) = calls [a] @ calls as"
    using calls_append [of "[a]" as] by simp
  have run: "run (a # as) s = run as ?s1" by simp
  have "progress s (run (a # as) s) (new_events s (run (a # as) s)) (ap1 @ ap2)"
    unfolding run using r .
  moreover have "exit_inv (run (a # as) s) (ap0 @ ap1 @ ap2)"
    unfolding run using i2 by simp
  moreover have "ring_puts (new_events s (run (a # as) s))
           = (if db_enabled s then map call_entry (calls (a # as)) else [])"
    unfolding run ev c by (simp add: p1 p2 d1(7))
  ultimately show ?case by blast
qed

lemma until_exit_stop:
  "e_type x = EXIT \<Longrightarrow> \<forall>e \<in> set g. e_type e \<noteq> EXIT \<Longrightarrow> until_exit (g @ x # rest) = g @ [x]"
  by (induction g) simp_all

lemma until_exit_pass:
  "\<forall>e \<in> set g. e_type e \<noteq> EXIT \<Longrightarrow> until_exit (g @ rest) = g @ until_exit rest"
  by (induction g) simp_all

lemma calls_replicate: "calls (replicate n Worker) = []"
  by (induction n) simp_all

lemma run_workers_stopped: "thrd s = STOPPED \<Longrightarrow> run (replicate n Worker) s = s"
  by (induction n) (simp_all add: db_worker_run_step_def)

lemma run_workers_idle:
  "thrd s = WAITING \<Longrightarrow> ring_get (ring s) = None \<Longrightarrow> run (replicate n Worker) s = s"
  by (induction n) (simp_all add: db_worker_run_step_def)

text \<open>
  Left alone for long enough, the worker processes what it holds and what is pending, up
  to the first \<open>Exit\<close>: two transitions for each pending Command, one for a held one.
\<close>

lemma worker_finishes:
  assumes "ring_wf (ring s)" and "thrd s \<noteq> NOT_STARTED"
    and "2 * length (ring_pending (ring s)) + length (held s) \<le> n"
  shows "progress s (run (replicate n Worker) s) (new_events s (run (replicate n Worker) s)) (todo s)
       \<and> held (run (replicate n Worker) s) = []"
  using assms
proof (induction n arbitrary: s)
  case 0
  then have p: "ring_pending (ring s) = []" and h: "held s = []" by simp_all
  from h have "todo s = []" by (simp add: todo_def p)
  with 0 h show ?case by (simp add: progress_refl)
next
  case (Suc n)
  let ?s1 = "db_worker_run_step s"
  have run: "run (replicate (Suc n) Worker) s = run (replicate n Worker) ?s1" by simp
  note w = worker_progress(1) [OF Suc.prems(1)]
  note d = progressD [OF w]
  show ?case
  proof (cases "thrd s")
    case NOT_STARTED
    with Suc.prems show ?thesis by simp
  next
    case STOPPED
    then have "run (replicate (Suc n) Worker) s = s" by (rule run_workers_stopped)
    with STOPPED Suc.prems show ?thesis
      by (simp add: progress_refl todo_def held_def)
  next
    case WAITING
    show ?thesis
    proof (cases "ring_get (ring s)")
      case None
      with WAITING have r: "run (replicate (Suc n) Worker) s = s" by (rule run_workers_idle)
      from None Suc.prems(1) have "ring_pending (ring s) = []" by (simp add: ring_get_None)
      with WAITING have "todo s = []" "held s = []" by (simp_all add: todo_def held_def)
      with Suc.prems(1) show ?thesis unfolding r by (simp add: progress_refl)
    next
      case (Some a)
      then obtain e r' where get: "ring_get (ring s) = Some (e, r')" by (cases a) auto
      from Suc.prems(1) get have wf': "ring_wf r'" and pe: "ring_pending (ring s) = e # ring_pending r'"
        by (auto intro: ring_get_wf ring_get_pending)
      have s1: "thrd ?s1 = DRAINING e" "ring ?s1 = r'"
        using WAITING get by (simp_all add: db_worker_run_step_def)
      have m: "2 * length (ring_pending (ring ?s1)) + length (held ?s1) \<le> n"
        using Suc.prems(3) pe s1 by (simp add: held_def)
      have "progress ?s1 (run (replicate n Worker) ?s1)
              (new_events ?s1 (run (replicate n Worker) ?s1)) (todo ?s1)
          \<and> held (run (replicate n Worker) ?s1) = []"
        using d(2) m s1 by (intro Suc.IH) simp_all
      then have p2: "progress ?s1 (run (replicate n Worker) ?s1)
              (new_events ?s1 (run (replicate n Worker) ?s1)) (todo ?s1)"
        and h2: "held (run (replicate n Worker) ?s1) = []" by simp_all
      have hs: "held s = []" using WAITING by (simp add: held_def)
      have td: "todo ?s1 = todo s"
        using WAITING s1 pe by (simp add: todo_def held_def)
      from progress_trans [OF w p2]
      have "progress s (run (replicate n Worker) ?s1)
              (new_events s (run (replicate n Worker) ?s1)) (todo s)"
        by (simp add: hs td)
      with h2 show ?thesis unfolding run by simp
    qed
  next
    case (DRAINING e)
    have s1: "thrd ?s1 = (if e_type e = EXIT then STOPPED else WAITING)" "ring ?s1 = ring s"
      using DRAINING by (simp_all add: db_worker_run_step_def)
    have hs: "held s = [e]" using DRAINING by (simp add: held_def)
    have m: "2 * length (ring_pending (ring ?s1)) + length (held ?s1) \<le> n"
      using Suc.prems(3) s1 hs by (simp add: held_def)
    have "progress ?s1 (run (replicate n Worker) ?s1)
              (new_events ?s1 (run (replicate n Worker) ?s1)) (todo ?s1)
          \<and> held (run (replicate n Worker) ?s1) = []"
      using d(2) m s1 by (intro Suc.IH) simp_all
    then have p2: "progress ?s1 (run (replicate n Worker) ?s1)
              (new_events ?s1 (run (replicate n Worker) ?s1)) (todo ?s1)"
      and h2: "held (run (replicate n Worker) ?s1) = []" by simp_all
    have td: "held s @ todo ?s1 = todo s"
      using DRAINING s1 by (simp add: todo_def held_def)
    from progress_trans [OF w p2]
    have "progress s (run (replicate n Worker) ?s1)
              (new_events s (run (replicate n Worker) ?s1)) (todo s)"
      by (simp only: td)
    with h2 show ?thesis unfolding run by simp
  qed
qed

text \<open>
  An interleaving followed by enough transitions of the worker alone: the worker has
  then popped and dispatched, in order, the Commands pending at the start and the pushed
  ones, up to the first \<open>Exit\<close>.
\<close>

lemma run_then_drain:
  assumes "ring_wf (ring s)" and "thrd s = WAITING"
    and "2 * length (ring_pending (ring (run sched s))) < n"
  shows "progress s (run (sched @ replicate n Worker) s)
           (new_events s (run (sched @ replicate n Worker) s))
           (until_exit (ring_pending (ring s) @ ring_puts (new_events s (run sched s))))"
    and "held (run (sched @ replicate n Worker) s) = []"
    and "exit_inv (run (sched @ replicate n Worker) s)
           (until_exit (ring_pending (ring s) @ ring_puts (new_events s (run sched s))))"
    and "ring_puts (new_events s (run (sched @ replicate n Worker) s))
           = ring_puts (new_events s (run sched s))"
proof -
  let ?s1 = "run sched s"
  let ?s2 = "run (replicate n Worker) ?s1"
  let ?all = "ring_pending (ring s) @ ring_puts (new_events s ?s1)"
  have i0: "exit_inv s []" using assms(2) by (simp add: exit_inv_def)
  have h0: "held s = []" using assms(2) by (simp add: held_def)
  from run_progress [OF assms(1) i0, of sched]
  obtain ap where r1: "progress s ?s1 (new_events s ?s1) ap" and i1: "exit_inv ?s1 ap"
    by auto
  note d1 = progressD [OF r1]
  have ns: "thrd ?s1 \<noteq> NOT_STARTED" using i1 by (simp add: exit_inv_def)
  have "length (held ?s1) \<le> 1" by (simp add: held_def split: worker_state.splits)
  with assms(3) have m: "2 * length (ring_pending (ring ?s1)) + length (held ?s1) \<le> n" by simp
  from worker_finishes [OF d1(2) ns m]
  have r2: "progress ?s1 ?s2 (new_events ?s1 ?s2) (todo ?s1)" and h2: "held ?s2 = []"
    by simp_all
  note d2 = progressD [OF r2]
  have all: "ap @ held ?s1 @ ring_pending (ring ?s1) = ?all"
    using d1(3) d1(4) h0 by (metis append_Nil append_assoc)
  have tot: "ap @ todo ?s1 = until_exit ?all"
  proof (cases "thrd ?s1 = STOPPED")
    case True
    with i1 obtain g x where g: "ap = g @ [x]" "e_type x = EXIT" "\<forall>e \<in> set g. e_type e \<noteq> EXIT"
      by (auto simp: exit_inv_def)
    have "until_exit (g @ x # held ?s1 @ ring_pending (ring ?s1)) = g @ [x]"
      using g(2,3) by (rule until_exit_stop)
    with g(1) all True show ?thesis by (simp add: todo_def)
  next
    case False
    with i1 have "\<forall>e \<in> set ap. e_type e \<noteq> EXIT" by (simp add: exit_inv_def)
    then have "until_exit (ap @ held ?s1 @ ring_pending (ring ?s1))
        = ap @ until_exit (held ?s1 @ ring_pending (ring ?s1))"
      by (rule until_exit_pass)
    with all False show ?thesis by (simp add: todo_def)
  qed
  have run: "run (sched @ replicate n Worker) s = ?s2" by (rule run_append)
  from progress_trans [OF r1 r2] tot
  show p: "progress s (run (sched @ replicate n Worker) s)
           (new_events s (run (sched @ replicate n Worker) s)) (until_exit ?all)"
    unfolding run by simp
  show "held (run (sched @ replicate n Worker) s) = []" unfolding run by (rule h2)
  from run_progress [OF assms(1) i0, of "sched @ replicate n Worker"]
  obtain ap' where r3: "progress s ?s2 (new_events s ?s2) ap'" and i3: "exit_inv ?s2 ap'"
    unfolding run by auto
  have "ap' @ held ?s2 = until_exit ?all @ held ?s2"
    using progressD(4) [OF r3] progressD(4) [OF p [unfolded run]] by simp
  then have "ap' = until_exit ?all" by simp
  with i3 show "exit_inv (run (sched @ replicate n Worker) s) (until_exit ?all)"
    unfolding run by simp
  have "trace ?s2 = trace s @ new_events s ?s1 @ new_events ?s1 ?s2"
    using d1(1) d2(1) by (metis append_assoc)
  then have ev: "new_events s ?s2 = new_events s ?s1 @ new_events ?s1 ?s2"
    by (rule new_events_append)
  have "ring_puts (new_events ?s1 ?s2) = []"
    using run_progress [OF d1(2) i1, of "replicate n Worker"]
    by (auto simp: calls_replicate)
  then show "ring_puts (new_events s (run (sched @ replicate n Worker) s))
           = ring_puts (new_events s (run sched s))"
    unfolding run ev by simp
qed

lemma db_worker_run_steps: "db_worker_run s = db_worker_run (run (replicate n Worker) s)"
proof (induction n arbitrary: s)
  case 0
  show ?case by simp
next
  case (Suc n)
  have "db_worker_run s = db_worker_run (db_worker_run_step s)"
  proof (cases "thrd s = STOPPED")
    case True
    then have "db_worker_run_step s = s" by (simp add: db_worker_run_step_def)
    then show ?thesis by simp
  next
    case False
    then show ?thesis by (subst db_worker_run.simps) simp
  qed
  also have "\<dots> = db_worker_run (run (replicate n Worker) (db_worker_run_step s))"
    by (rule Suc.IH)
  finally show ?case by simp
qed

lemma db_worker_run_stopped: "thrd s = STOPPED \<Longrightarrow> db_worker_run s = Some s"
  by (subst db_worker_run.simps) simp

lemma call_entry_exit: "(e_type (call_entry c) = EXIT) = (c = Worker_stop)"
  by (cases c)
    (simp_all add: block_entry_def light_entry_def block_damage_entry_def
      block_damage_trim_entry_def key_entry_def commit_entry_def exit_entry_def)

text \<open>
  Claim C1.  Whatever the producers call and however their critical sections and the
  worker's transitions interleave, the Commands popped so far, followed by those still
  pending, are the Commands pending at the start followed by the pushed ones in the
  order of their pushes, across growth of the queue.  The store is what the spec
  prescribes for the popped Commands applied in that order (all but the one the worker
  still holds), and the store has received exactly the calls prescribed for them, in
  that order.  Once the worker has had enough further transitions, it has popped and
  applied, in push order, every Command up to the first \<open>Exit\<close>.
\<close>

theorem fifo_order:
  assumes "ring_wf (ring s)" and "thrd s = WAITING"
  shows "ring_puts (new_events s (run sched s))
           = (if db_enabled s then map call_entry (calls sched) else [])
       \<and> ring_gets (new_events s (run sched s)) @ ring_pending (ring (run sched s))
           = ring_pending (ring s) @ ring_puts (new_events s (run sched s))
       \<and> db (run sched s)
           = foldl (\<lambda>st e. command_effect e st) (db s)
               (applied (run sched s) (ring_gets (new_events s (run sched s))))
       \<and> filter is_store_call (new_events s (run sched s))
           = concat (map command_store_calls
               (applied (run sched s) (ring_gets (new_events s (run sched s)))))
       \<and> ring_wf (ring (run sched s))
       \<and> (\<forall>n. 2 * length (ring_pending (ring (run sched s))) < n \<longrightarrow>
            ring_gets (new_events s (run (sched @ replicate n Worker) s))
              = until_exit (ring_pending (ring s) @ ring_puts (new_events s (run sched s)))
            \<and> db (run (sched @ replicate n Worker) s)
              = foldl (\<lambda>st e. command_effect e st) (db s)
                  (until_exit (ring_pending (ring s) @ ring_puts (new_events s (run sched s))))
            \<and> filter is_store_call (new_events s (run (sched @ replicate n Worker) s))
              = concat (map command_store_calls
                  (until_exit (ring_pending (ring s) @ ring_puts (new_events s (run sched s))))))"
proof -
  let ?s1 = "run sched s"
  let ?all = "until_exit (ring_pending (ring s) @ ring_puts (new_events s ?s1))"
  have i0: "exit_inv s []" using assms(2) by (simp add: exit_inv_def)
  have h0: "held s = []" using assms(2) by (simp add: held_def)
  from run_progress [OF assms(1) i0, of sched]
  obtain ap where r: "progress s ?s1 (new_events s ?s1) ap"
    and p: "ring_puts (new_events s ?s1)
           = (if db_enabled s then map call_entry (calls sched) else [])"
    by blast
  note d = progressD [OF r]
  from d(4) h0 have "ring_gets (new_events s ?s1) = ap @ held ?s1" by simp
  then have ap: "applied ?s1 (ring_gets (new_events s ?s1)) = ap"
    by (simp add: applied_def held_def split: worker_state.splits)
  have live: "ring_gets (new_events s (run (sched @ replicate n Worker) s)) = ?all
            \<and> db (run (sched @ replicate n Worker) s)
              = foldl (\<lambda>st e. command_effect e st) (db s) ?all
            \<and> filter is_store_call (new_events s (run (sched @ replicate n Worker) s))
              = concat (map command_store_calls ?all)"
    if n: "2 * length (ring_pending (ring ?s1)) < n" for n
  proof -
    note t = run_then_drain [OF assms n]
    note e = progressD [OF t(1)]
    from e(4) h0 t(2)
    have "ring_gets (new_events s (run (sched @ replicate n Worker) s)) = ?all" by simp
    with e(5) e(6) show ?thesis by (intro conjI)
  qed
  have a3: "db ?s1 = foldl (\<lambda>st e. command_effect e st) (db s)
               (applied ?s1 (ring_gets (new_events s ?s1)))"
    unfolding ap by (rule d(5))
  have a4: "filter is_store_call (new_events s ?s1)
           = concat (map command_store_calls (applied ?s1 (ring_gets (new_events s ?s1))))"
    unfolding ap by (rule d(6))
  from live have a6: "\<forall>n. 2 * length (ring_pending (ring ?s1)) < n \<longrightarrow>
            ring_gets (new_events s (run (sched @ replicate n Worker) s)) = ?all
            \<and> db (run (sched @ replicate n Worker) s)
              = foldl (\<lambda>st e. command_effect e st) (db s) ?all
            \<and> filter is_store_call (new_events s (run (sched @ replicate n Worker) s))
              = concat (map command_store_calls ?all)"
    by blast
  from p d(3) a3 a4 d(2) a6 show ?thesis by (intro conjI)
qed

theorem fifo_order_witness:
  "ring_wf (ring world_1) \<and> thrd world_1 = WAITING \<and> ring_full (ring world_1)
   \<and> ring_pending (ring world_1) = [block_55]
   \<and> ring_capacity (ring (run busy_schedule world_1)) = 4
   \<and> ring_puts (new_events world_1 (run busy_schedule world_1)) = [key_entry 0 0 7, commit_entry]
   \<and> ring_gets (new_events world_1 (run busy_schedule world_1)) = [block_55, key_entry 0 0 7]
   \<and> ring_pending (ring (run busy_schedule world_1)) = [commit_entry]
   \<and> thrd (run busy_schedule world_1) = DRAINING (key_entry 0 0 7)
   \<and> db (run busy_schedule world_1) = command_effect block_55 damaged_store
   \<and> t_block (db (run busy_schedule world_1)) = [(0, 0, 1, 2, 3, 55)]
   \<and> t_block_damage (db (run busy_schedule world_1))
       = [(0, 0, 1, 2, 4, 0), (0, 1, 1, 2, 3, 0), (0, 0, 1, 2, 3, 0)]
   \<and> t_key (db (run busy_schedule world_1)) = [(0, 0, 5)]
   \<and> filter is_store_call (new_events world_1 (run busy_schedule world_1))
       = execute_6 insert_block_stmt 0 0 1 2 3 55 @ execute_6 insert_block_damage_stmt 0 0 1 2 3 0
   \<and> ring_gets (new_events world_1 (run (busy_schedule @ replicate 3 Worker) world_1))
       = [block_55, key_entry 0 0 7, commit_entry]
   \<and> t_block (db (run (busy_schedule @ replicate 3 Worker) world_1)) = [(0, 0, 1, 2, 3, 55)]
   \<and> t_key (db (run (busy_schedule @ replicate 3 Worker) world_1)) = [(0, 0, 7)]
   \<and> filter is_store_call (new_events world_1 (run (busy_schedule @ replicate 3 Worker) world_1))
       = execute_6 insert_block_stmt 0 0 1 2 3 55 @ execute_6 insert_block_damage_stmt 0 0 1 2 3 0
         @ [SqliteReset set_key_stmt, SqliteBindInt set_key_stmt 1 0, SqliteBindInt set_key_stmt 2 0,
            SqliteBindInt set_key_stmt 3 7, SqliteStep set_key_stmt]
         @ [SqliteExec ''commit; begin;'']"
proof -
  have wf: "ring_wf (ring world_1)" by (simp add: ring_wf_def)
  have th: "thrd world_1 = WAITING" by simp
  have full: "ring_full (ring world_1)" by (simp add: ring_full_def)
  have pend: "ring_pending (ring world_1) = [block_55]"
    by (simp add: ring_pending_def ring_size_def)
  have en: "db_enabled world_1" by simp
  note t = fifo_order [OF wf th, of busy_schedule]
  have puts: "ring_puts (new_events world_1 (run busy_schedule world_1)) = [key_entry 0 0 7, commit_entry]"
    using t [THEN conjunct1] en by simp
  have cap: "ring_capacity (ring (run busy_schedule world_1)) = 4"
    by code_simp
  have gets: "ring_gets (new_events world_1 (run busy_schedule world_1)) = [block_55, key_entry 0 0 7]"
    by code_simp
  have pend': "ring_pending (ring (run busy_schedule world_1)) = [commit_entry]"
    by code_simp
  have th': "thrd (run busy_schedule world_1) = DRAINING (key_entry 0 0 7)"
    by code_simp
  have ap: "applied (run busy_schedule world_1) (ring_gets (new_events world_1 (run busy_schedule world_1)))
      = [block_55]"
    unfolding applied_def gets th' by simp
  have db': "db (run busy_schedule world_1) = command_effect block_55 damaged_store"
    using t [THEN conjunct2, THEN conjunct2, THEN conjunct1] unfolding ap by simp
  have b': "t_block (db (run busy_schedule world_1)) = [(0, 0, 1, 2, 3, 55)]"
    unfolding db' by (simp add: command_effect_def)
  have d': "t_block_damage (db (run busy_schedule world_1))
       = [(0, 0, 1, 2, 4, 0), (0, 1, 1, 2, 3, 0), (0, 0, 1, 2, 3, 0)]"
    unfolding db' by (simp add: command_effect_def)
  have k': "t_key (db (run busy_schedule world_1)) = [(0, 0, 5)]"
    unfolding db' by (simp add: command_effect_def)
  have c': "filter is_store_call (new_events world_1 (run busy_schedule world_1))
       = execute_6 insert_block_stmt 0 0 1 2 3 55 @ execute_6 insert_block_damage_stmt 0 0 1 2 3 0"
    using t [THEN conjunct2, THEN conjunct2, THEN conjunct2, THEN conjunct1] unfolding ap
    by (simp add: command_store_calls_def)
  have n: "2 * length (ring_pending (ring (run busy_schedule world_1))) < 3"
    unfolding pend' by simp
  have all: "until_exit (ring_pending (ring world_1)
                @ ring_puts (new_events world_1 (run busy_schedule world_1)))
      = [block_55, key_entry 0 0 7, commit_entry]"
    unfolding pend puts by (simp add: key_entry_def commit_entry_def)
  note l = t [THEN conjunct2, THEN conjunct2, THEN conjunct2, THEN conjunct2, THEN conjunct2,
      THEN spec, of 3, THEN mp, OF n, unfolded all]
  have gets'': "ring_gets (new_events world_1 (run (busy_schedule @ replicate 3 Worker) world_1))
       = [block_55, key_entry 0 0 7, commit_entry]"
    using l by (rule conjunct1)
  have db'': "db (run (busy_schedule @ replicate 3 Worker) world_1)
      = foldl (\<lambda>st e. command_effect e st) (db world_1) [block_55, key_entry 0 0 7, commit_entry]"
    using l by (rule conjunct2 [THEN conjunct1])
  have b'': "t_block (db (run (busy_schedule @ replicate 3 Worker) world_1)) = [(0, 0, 1, 2, 3, 55)]"
    unfolding db'' by (simp add: command_effect_def key_entry_def commit_entry_def)
  have k'': "t_key (db (run (busy_schedule @ replicate 3 Worker) world_1)) = [(0, 0, 7)]"
    unfolding db'' by (simp add: command_effect_def key_entry_def commit_entry_def)
  have c'': "filter is_store_call (new_events world_1 (run (busy_schedule @ replicate 3 Worker) world_1))
       = execute_6 insert_block_stmt 0 0 1 2 3 55 @ execute_6 insert_block_damage_stmt 0 0 1 2 3 0
         @ [SqliteReset set_key_stmt, SqliteBindInt set_key_stmt 1 0, SqliteBindInt set_key_stmt 2 0,
            SqliteBindInt set_key_stmt 3 7, SqliteStep set_key_stmt]
         @ [SqliteExec ''commit; begin;'']"
    using l [THEN conjunct2, THEN conjunct2]
    by (simp add: command_store_calls_def key_entry_def commit_entry_def)
  from wf th full pend cap puts gets pend' th' db' b' d' k' c' gets'' b'' k'' c''
  show ?thesis by (intro conjI)
qed

text \<open>
  Claim C4.  With the database enabled and the worker started, let the producers enqueue
  any N Commands (none of them \<open>Exit\<close>), interleaved in any way with the worker's
  transitions, and then call \<open>db_worker_stop\<close>.  The call returns with the worker
  stopped; the worker has popped exactly the N Commands in the order of their pushes
  and then \<open>Exit\<close>; the store is what the spec prescribes for the N Commands applied in
  that order, and it has received exactly the calls prescribed for them, in that order:
  none is skipped, and \<open>Exit\<close> is processed last.
\<close>

theorem exit_after_all_commands:
  assumes "db_enabled s" and "Worker_stop \<notin> set (calls sched)"
  shows "\<exists>s'. db_worker_stop (run sched (db_worker_start path s)) = Some s'
       \<and> thrd s' = STOPPED
       \<and> ring_puts (new_events s s') = map call_entry (calls sched) @ [exit_entry]
       \<and> ring_gets (new_events s s') = map call_entry (calls sched) @ [exit_entry]
       \<and> db s' = foldl (\<lambda>st e. command_effect e st) (db s) (map call_entry (calls sched))
       \<and> filter is_store_call (new_events s s')
           = concat (map command_store_calls (map call_entry (calls sched)))"
proof -
  let ?cmds = "map call_entry (calls sched)"
  let ?start = "[RingAlloc, MtxInit Mtx, MtxInit Load_mtx, CndInit, ThrdCreate]"
  let ?join = "[ThrdJoin, CndDestroy, MtxDestroy Load_mtx, MtxDestroy Mtx, RingFree]"
  let ?sched = "sched @ [Producer Worker_stop]"
  let ?s1 = "db_worker_start path s"
  let ?s2 = "run sched ?s1"
  let ?s3 = "run ?sched ?s1"
  let ?n = "Suc (2 * length (ring_pending (ring ?s3)))"
  let ?s4 = "run (?sched @ replicate ?n Worker) ?s1"
  have s1: "?s1 = emit ?start (s\<lparr>ring := ring_alloc 1024, thrd := WAITING\<rparr>)"
    using assms(1) by (simp add: db_worker_start_def)
  have wf1: "ring_wf (ring ?s1)" and pend1: "ring_pending (ring ?s1) = []"
    and th1: "thrd ?s1 = WAITING" and en1: "db_enabled ?s1" and db1: "db ?s1 = db s"
    and tr1: "trace ?s1 = trace s @ ?start"
    unfolding s1 using assms(1) by (simp_all add: ring_alloc_wf ring_alloc_pending)
  have i1: "exit_inv ?s1 []" and h1: "held ?s1 = []"
    using th1 by (simp_all add: exit_inv_def held_def)
  from run_progress [OF wf1 i1, of sched]
  obtain ap where r2: "progress ?s1 ?s2 (new_events ?s1 ?s2) ap" by blast
  have en2: "db_enabled ?s2" using progressD(7) [OF r2] en1 by simp
  have s3: "db_worker_stop_enqueue ?s2 = ?s3"
    using en2 by (simp add: run_append)
  from run_progress [OF wf1 i1, of ?sched] en1
  have p3: "ring_puts (new_events ?s1 ?s3) = ?cmds @ [exit_entry]"
    by (auto simp: calls_append)
  have n: "2 * length (ring_pending (ring ?s3)) < ?n" by simp
  note t = run_then_drain [OF wf1 th1 n]
  have ne: "\<forall>e \<in> set ?cmds. e_type e \<noteq> EXIT"
    using assms(2) by (auto simp: call_entry_exit)
  have ex: "e_type exit_entry = EXIT" by (simp add: exit_entry_def)
  have all: "until_exit (ring_pending (ring ?s1) @ ring_puts (new_events ?s1 ?s3))
      = ?cmds @ [exit_entry]"
    unfolding pend1 p3 append_Nil using ex ne by (rule until_exit_stop)
  note p4 = t(1) [unfolded all] and i4 = t(3) [unfolded all]
    and puts4 = t(4) [unfolded p3]
  note d4 = progressD [OF p4]
  have th4: "thrd ?s4 = STOPPED"
    using i4 ex by (auto simp: exit_inv_def split: if_splits)
  have g4: "ring_gets (new_events ?s1 ?s4) = ?cmds @ [exit_entry]"
    using d4(4) h1 t(2) by simp
  have "db_worker_run ?s3 = db_worker_run (run (replicate ?n Worker) ?s3)"
    by (rule db_worker_run_steps)
  also have "run (replicate ?n Worker) ?s3 = ?s4" by (simp only: run_append)
  also have "db_worker_run ?s4 = Some ?s4" using th4 by (rule db_worker_run_stopped)
  finally have run4: "db_worker_run (db_worker_stop_enqueue ?s2) = Some ?s4"
    unfolding s3 .
  let ?s5 = "emit ?join (?s4\<lparr>ring := ring_free (ring ?s4)\<rparr>)"
  have stop: "db_worker_stop ?s2 = Some ?s5"
    using en2 run4 by (simp add: db_worker_stop_def)
  have th5: "thrd ?s5 = STOPPED" using th4 by simp
  have "trace ?s5 = trace s @ (?start @ new_events ?s1 ?s4 @ ?join)"
    using d4(1) tr1 by simp
  then have ev5: "new_events s ?s5 = ?start @ new_events ?s1 ?s4 @ ?join"
    by (rule new_events_append)
  have puts5: "ring_puts (new_events s ?s5) = ?cmds @ [exit_entry]"
    unfolding ev5 ring_puts_append puts4 by simp
  have gets5: "ring_gets (new_events s ?s5) = ?cmds @ [exit_entry]"
    unfolding ev5 ring_gets_append g4 by simp
  have "command_effect exit_entry st = st" for st
    by (simp add: command_effect_def exit_entry_def)
  then have "foldl (\<lambda>st e. command_effect e st) (db s) (?cmds @ [exit_entry])
      = foldl (\<lambda>st e. command_effect e st) (db s) ?cmds"
    by simp
  then have db5: "db ?s5 = foldl (\<lambda>st e. command_effect e st) (db s) ?cmds"
    unfolding d4(5) [unfolded db1, symmetric] by simp
  have "command_store_calls exit_entry = []"
    by (simp add: command_store_calls_def exit_entry_def)
  then have "concat (map command_store_calls (?cmds @ [exit_entry]))
      = concat (map command_store_calls ?cmds)"
    by simp
  then have calls5: "filter is_store_call (new_events s ?s5)
      = concat (map command_store_calls ?cmds)"
    unfolding ev5 filter_append d4(6) by simp
  from stop th5 puts5 gets5 db5 calls5 show ?thesis by blast
qed

theorem exit_after_all_commands_witness:
  "db_enabled world_1 \<and> Worker_stop \<notin> set (calls scenario_schedule)
   \<and> (\<exists>s'. db_worker_stop (run scenario_schedule (db_worker_start None world_1)) = Some s'
         \<and> thrd s' = STOPPED
         \<and> ring_gets (new_events world_1 s')
             = [block_entry 0 0 1 2 3 55, light_entry 0 0 1 2 3 9, commit_entry, exit_entry]
         \<and> select_w 0 0 1 2 3 (t_block (db s')) = [55]
         \<and> select_w 0 0 1 2 3 (t_light (db s')) = [9]
         \<and> select_w 0 0 1 2 3 (t_block_damage (db s')) = [0]
         \<and> t_light (db s') = [(0, 0, 1, 2, 3, 9)]
         \<and> filter is_store_call (new_events world_1 s')
             = execute_6 insert_block_stmt 0 0 1 2 3 55
               @ execute_6 insert_block_damage_stmt 0 0 1 2 3 0
               @ execute_6 insert_light_stmt 0 0 1 2 3 9
               @ [SqliteExec ''commit; begin;''])"
proof -
  have h1: "db_enabled world_1" by simp
  have h2: "Worker_stop \<notin> set (calls scenario_schedule)" by simp
  have c: "map call_entry (calls scenario_schedule)
      = [block_entry 0 0 1 2 3 55, light_entry 0 0 1 2 3 9, commit_entry]"
    by simp
  from exit_after_all_commands [OF h1 h2, of None]
  obtain s' where s': "db_worker_stop (run scenario_schedule (db_worker_start None world_1)) = Some s'"
    and th: "thrd s' = STOPPED"
    and gets: "ring_gets (new_events world_1 s')
        = map call_entry (calls scenario_schedule) @ [exit_entry]"
    and db': "db s' = foldl (\<lambda>st e. command_effect e st) (db world_1)
        (map call_entry (calls scenario_schedule))"
    and calls': "filter is_store_call (new_events world_1 s')
        = concat (map command_store_calls (map call_entry (calls scenario_schedule)))"
    by blast
  have g: "ring_gets (new_events world_1 s')
             = [block_entry 0 0 1 2 3 55, light_entry 0 0 1 2 3 9, commit_entry, exit_entry]"
    unfolding gets c by simp
  have b: "select_w 0 0 1 2 3 (t_block (db s')) = [55]"
    unfolding db' c by code_simp
  have l: "select_w 0 0 1 2 3 (t_light (db s')) = [9]"
    unfolding db' c by code_simp
  have d: "select_w 0 0 1 2 3 (t_block_damage (db s')) = [0]"
    unfolding db' c by code_simp
  have tl: "t_light (db s') = [(0, 0, 1, 2, 3, 9)]"
    unfolding db' c by code_simp
  have sc: "filter is_store_call (new_events world_1 s')
             = execute_6 insert_block_stmt 0 0 1 2 3 55
               @ execute_6 insert_block_damage_stmt 0 0 1 2 3 0
               @ execute_6 insert_light_stmt 0 0 1 2 3 9
               @ [SqliteExec ''commit; begin;'']"
    unfolding calls' c
    by (simp add: command_store_calls_def block_entry_def light_entry_def commit_entry_def)
  from h1 h2 s' th g b l d tl sc show ?thesis by blast
qed
end
